theory Spec2Isabelle
  imports Main "HOL-Library.Multiset" "HOL-Library.AList"
begin

section \<open>The cooperative scheduler\<close>

text \<open>
  The scheduler module keeps its state in module-level variables and in task objects that
  are shared between the two heaps and the callers. The model passes that state
  explicitly: a record \<open>scheduler\<close> holds the module variables, the host's clock and the
  store of task objects. Times are JavaScript numbers; the model takes them as integers
  (the values the clock and the timeouts have are integral, far below \<open>2^53\<close>).
  The profiling hooks (\<open>enableProfiling\<close>) only write marks and the \<open>isQueued\<close> field and
  are left out.
\<close>

subsection \<open>Tasks, callbacks and the scheduler state\<close>

text \<open>
  Modelled from the spec: the module SchedulerPriorities is not among the sources. The
  five levels are five distinct constants; \<open>OtherPriority\<close> stands for any other value a
  caller passes.
\<close>

datatype priority_level =
  ImmediatePriority | UserBlockingPriority | NormalPriority | LowPriority | IdlePriority
  | OtherPriority int

text \<open>
  The \<open>options\<close> argument of \<open>unstable_scheduleCallback\<close>: \<open>NoOptions\<close> is a value that
  is not an object (or is null); of an object only the field \<open>delay\<close> is read, which is a
  number or something else (undefined included).
\<close>

datatype delay_value = NumberDelay int | NotANumber

datatype sched_options = NoOptions | Options delay_value

text \<open>
  A callback is user code. Called with the flag \<open>didUserCallbackTimeout\<close> it may call the
  scheduler's interface, let time pass, and then return a function (the continuation),
  return anything else, or throw. A task is addressed by the reference
  \<open>unstable_scheduleCallback\<close> returned for it.
\<close>

datatype 'c outcome = ReturnsFunction 'c | ReturnsOther | Throws

datatype callback = Callback (invoke: "bool \<Rightarrow> api_call list \<times> callback outcome")
  and api_call =
    ScheduleCallback priority_level callback sched_options
  | CancelCallback nat
  | Elapse nat

record task =
  id' :: nat
  callback :: "callback option"
  priorityLevel :: priority_level
  startTime :: int
  expirationTime :: int
  sortIndex :: int

text \<open>
  \<open>tasks\<close> is the store of task objects: a heap array holds references into it, so that
  \<open>task.callback = null\<close> is seen through every alias. \<open>invocations\<close> is an observation
  log, not a variable of the source: it records every call of a task's callback, with the
  task and the argument passed. \<open>now\<close>, \<open>deadline\<close>, \<open>scheduledHostCallback\<close>,
  \<open>isMessageLoopRunning\<close> and \<open>taskTimeoutID\<close> are the host configuration's variables
  (SchedulerHostConfig.default.js, the message-channel branch); \<open>taskTimeoutID\<close> holds the
  delay of the timeout last requested. \<open>enableSchedulerDebugging\<close> is the feature flag of
  that name, whose module is not among the sources: it is a field that nothing writes.
\<close>

record scheduler =
  tasks :: "nat \<Rightarrow> task"
  taskQueue :: "nat list"
  timerQueue :: "nat list"
  taskIdCounter :: nat
  isSchedulerPaused :: bool
  currentTask :: "nat option"
  currentPriorityLevel :: priority_level
  isPerformingWork :: bool
  isHostCallbackScheduled :: bool
  isHostTimeoutScheduled :: bool
  enableSchedulerDebugging :: bool
  now :: int
  deadline :: int
  scheduledHostCallback :: bool
  isMessageLoopRunning :: bool
  taskTimeoutID :: "int option"
  invocations :: "(nat \<times> bool) list"

subsection \<open>The priority heap\<close>

text \<open>
  Modelled from the spec: the module SchedulerMinHeap is not among the sources. The spec
  (4.1) gives a binary min-heap over a sequence, compared by \<open>sortIndex\<close> and then by
  \<open>id\<close>; \<open>push\<close> appends and sifts up; \<open>peek\<close> returns the first item or null; \<open>pop\<close>
  removes and returns the first item, puts the last leaf at the root and sifts it down,
  taking the smaller child at each step and stopping when neither is smaller.
\<close>

definition compare :: "(nat \<Rightarrow> task) \<Rightarrow> nat \<Rightarrow> nat \<Rightarrow> int" where
  "compare ts a b =
     (let diff = sortIndex (ts a) - sortIndex (ts b)
      in if diff \<noteq> 0 then diff else int (id' (ts a)) - int (id' (ts b)))"

function siftUp :: "(nat \<Rightarrow> task) \<Rightarrow> nat list \<Rightarrow> nat \<Rightarrow> nat \<Rightarrow> nat list" where
  "siftUp ts heap node index =
     (if index = 0 then heap
      else let parentIndex = (index - 1) div 2; parent = heap ! parentIndex
           in if compare ts parent node > 0
              then siftUp ts (heap[parentIndex := node, index := parent]) node parentIndex
              else heap)"
  by pat_completeness auto

termination
  by (relation "measure (\<lambda>(ts, heap, node, index). index)") auto

function siftDown :: "(nat \<Rightarrow> task) \<Rightarrow> nat list \<Rightarrow> nat \<Rightarrow> nat \<Rightarrow> nat list" where
  "siftDown ts heap node index =
     (if index < length heap then
        let leftIndex = (index + 1) * 2 - 1; rightIndex = leftIndex + 1
        in if leftIndex < length heap \<and> compare ts (heap ! leftIndex) node < 0 then
             if rightIndex < length heap
                \<and> compare ts (heap ! rightIndex) (heap ! leftIndex) < 0
             then siftDown ts (heap[index := heap ! rightIndex, rightIndex := node])
                    node rightIndex
             else siftDown ts (heap[index := heap ! leftIndex, leftIndex := node])
                    node leftIndex
           else if rightIndex < length heap \<and> compare ts (heap ! rightIndex) node < 0
             then siftDown ts (heap[index := heap ! rightIndex, rightIndex := node])
                    node rightIndex
           else heap
      else heap)"
  by pat_completeness auto

termination
  by (relation "measure (\<lambda>(ts, heap, node, index). length heap - index)") auto

declare siftUp.simps [simp del] siftDown.simps [simp del]

definition push :: "(nat \<Rightarrow> task) \<Rightarrow> nat list \<Rightarrow> nat \<Rightarrow> nat list" where
  "push ts heap node = siftUp ts (heap @ [node]) node (length heap)"

definition peek :: "nat list \<Rightarrow> nat option" where
  "peek heap = (case heap of [] \<Rightarrow> None | first # _ \<Rightarrow> Some first)"

text \<open>\<open>pop\<close> gives the item returned and the array as the call leaves it.\<close>

definition pop :: "(nat \<Rightarrow> task) \<Rightarrow> nat list \<Rightarrow> nat option \<times> nat list" where
  "pop ts heap =
     (case heap of
        [] \<Rightarrow> (None, [])
      | first # _ \<Rightarrow>
          let lst = last heap; rest = butlast heap
          in if lst \<noteq> first then (Some first, siftDown ts (rest[0 := lst]) lst 0)
             else (Some first, rest))"

subsection \<open>The host configuration\<close>

definition getCurrentTime :: "scheduler \<Rightarrow> int" where
  "getCurrentTime s = now s"

definition shouldYieldToHost :: "scheduler \<Rightarrow> bool" where
  "shouldYieldToHost s = (getCurrentTime s \<ge> deadline s)"

definition requestHostCallback :: "scheduler \<Rightarrow> scheduler" where
  "requestHostCallback s =
     (let s1 = s\<lparr>scheduledHostCallback := True\<rparr>
      in if \<not> isMessageLoopRunning s1 then s1\<lparr>isMessageLoopRunning := True\<rparr> else s1)"

definition requestHostTimeout :: "int \<Rightarrow> scheduler \<Rightarrow> scheduler" where
  "requestHostTimeout ms s = s\<lparr>taskTimeoutID := Some ms\<rparr>"

definition cancelHostTimeout :: "scheduler \<Rightarrow> scheduler" where
  "cancelHostTimeout s = s\<lparr>taskTimeoutID := None\<rparr>"

subsection \<open>Scheduling and cancelling\<close>

definition IMMEDIATE_PRIORITY_TIMEOUT :: int where
  "IMMEDIATE_PRIORITY_TIMEOUT = - 1"

definition USER_BLOCKING_PRIORITY_TIMEOUT :: int where
  "USER_BLOCKING_PRIORITY_TIMEOUT = 250"

definition NORMAL_PRIORITY_TIMEOUT :: int where
  "NORMAL_PRIORITY_TIMEOUT = 5000"

definition LOW_PRIORITY_TIMEOUT :: int where
  "LOW_PRIORITY_TIMEOUT = 10000"

definition maxSigned31BitInt :: int where
  "maxSigned31BitInt = 1073741823"

definition IDLE_PRIORITY_TIMEOUT :: int where
  "IDLE_PRIORITY_TIMEOUT = maxSigned31BitInt"

text \<open>The \<open>switch\<close> of \<open>unstable_scheduleCallback\<close> that chooses the timeout.\<close>

fun timeout_of :: "priority_level \<Rightarrow> int" where
  "timeout_of ImmediatePriority = IMMEDIATE_PRIORITY_TIMEOUT"
| "timeout_of UserBlockingPriority = USER_BLOCKING_PRIORITY_TIMEOUT"
| "timeout_of IdlePriority = IDLE_PRIORITY_TIMEOUT"
| "timeout_of LowPriority = LOW_PRIORITY_TIMEOUT"
| "timeout_of NormalPriority = NORMAL_PRIORITY_TIMEOUT"
| "timeout_of (OtherPriority v) = NORMAL_PRIORITY_TIMEOUT"

text \<open>The start time \<open>unstable_scheduleCallback\<close> computes from its \<open>options\<close>.\<close>

fun startTime_of :: "int \<Rightarrow> sched_options \<Rightarrow> int" where
  "startTime_of currentTime (Options (NumberDelay delay)) =
     (if delay > 0 then currentTime + delay else currentTime)"
| "startTime_of currentTime (Options NotANumber) = currentTime"
| "startTime_of currentTime NoOptions = currentTime"

text \<open>
  \<open>unstable_scheduleCallback\<close> returns the reference of the new task object; the object
  is allocated at the address \<open>taskIdCounter\<close>, which is also its \<open>id\<close>.
\<close>

definition unstable_scheduleCallback ::
    "priority_level \<Rightarrow> callback \<Rightarrow> sched_options \<Rightarrow> scheduler \<Rightarrow> nat \<times> scheduler" where
  "unstable_scheduleCallback level cb options s =
     (let currentTime = getCurrentTime s;
          start = startTime_of currentTime options;
          timeout = timeout_of level;
          expiration = start + timeout;
          newTask = taskIdCounter s;
          s1 = s\<lparr>taskIdCounter := taskIdCounter s + 1,
                 tasks := (tasks s)(newTask :=
                   \<lparr>id' = taskIdCounter s, callback = Some cb, priorityLevel = level,
                    startTime = start, expirationTime = expiration, sortIndex = - 1\<rparr>)\<rparr>
      in if start > currentTime then
           let s2 = s1\<lparr>tasks := (tasks s1)(newTask := (tasks s1 newTask)\<lparr>sortIndex := start\<rparr>)\<rparr>;
               s3 = s2\<lparr>timerQueue := push (tasks s2) (timerQueue s2) newTask\<rparr>
           in if peek (taskQueue s3) = None \<and> Some newTask = peek (timerQueue s3) then
                let s4 = (if isHostTimeoutScheduled s3 then cancelHostTimeout s3
                          else s3\<lparr>isHostTimeoutScheduled := True\<rparr>)
                in (newTask, requestHostTimeout (start - currentTime) s4)
              else (newTask, s3)
         else
           let s2 = s1\<lparr>tasks :=
                      (tasks s1)(newTask := (tasks s1 newTask)\<lparr>sortIndex := expiration\<rparr>)\<rparr>;
               s3 = s2\<lparr>taskQueue := push (tasks s2) (taskQueue s2) newTask\<rparr>
           in if \<not> isHostCallbackScheduled s3 \<and> \<not> isPerformingWork s3 then
                (newTask, requestHostCallback (s3\<lparr>isHostCallbackScheduled := True\<rparr>))
              else (newTask, s3))"

definition unstable_cancelCallback :: "nat \<Rightarrow> scheduler \<Rightarrow> scheduler" where
  "unstable_cancelCallback t s = s\<lparr>tasks := (tasks s)(t := (tasks s t)\<lparr>callback := None\<rparr>)\<rparr>"

text \<open>What a running callback does to the scheduler before it returns.\<close>

fun apply_call :: "api_call \<Rightarrow> scheduler \<Rightarrow> scheduler" where
  "apply_call (ScheduleCallback level cb options) s =
     snd (unstable_scheduleCallback level cb options s)"
| "apply_call (CancelCallback t) s = unstable_cancelCallback t s"
| "apply_call (Elapse d) s = s\<lparr>now := now s + int d\<rparr>"

fun apply_calls :: "api_call list \<Rightarrow> scheduler \<Rightarrow> scheduler" where
  "apply_calls [] s = s"
| "apply_calls (c # cs) s = apply_calls cs (apply_call c s)"

subsection \<open>Timers and the work loop\<close>

function advanceTimers :: "int \<Rightarrow> scheduler \<Rightarrow> scheduler" where
  "advanceTimers currentTime s =
     (case peek (timerQueue s) of
        None \<Rightarrow> s
      | Some timer \<Rightarrow>
          if callback (tasks s timer) = None then
            advanceTimers currentTime (s\<lparr>timerQueue := snd (pop (tasks s) (timerQueue s))\<rparr>)
          else if startTime (tasks s timer) \<le> currentTime then
            let s1 = s\<lparr>timerQueue := snd (pop (tasks s) (timerQueue s))\<rparr>;
                s2 = s1\<lparr>tasks := (tasks s1)(timer :=
                        (tasks s1 timer)\<lparr>sortIndex := expirationTime (tasks s1 timer)\<rparr>)\<rparr>;
                s3 = s2\<lparr>taskQueue := push (tasks s2) (taskQueue s2) timer\<rparr>
            in advanceTimers currentTime s3
          else s)"
  by pat_completeness auto

termination
proof -
  have sift: "length (siftDown ts heap node i) = length heap" for ts heap node i
  proof (induction ts heap node i rule: siftDown.induct)
    case (1 ts heap node i)
    show ?case
      by (subst siftDown.simps) (simp add: Let_def 1)
  qed
  have shorter: "length (snd (pop ts heap)) < length heap" if "heap \<noteq> []" for ts heap
    using that by (cases heap) (simp_all add: pop_def Let_def sift)
  show ?thesis
  proof (relation "measure (\<lambda>(currentTime, s). length (timerQueue s))")
    show "wf (measure (\<lambda>(currentTime, s). length (timerQueue s)))"
      by simp
  next
    fix currentTime :: int and s :: scheduler and timer
    assume "peek (timerQueue s) = Some timer"
    then have "timerQueue s \<noteq> []"
      by (auto simp: peek_def)
    then show "((currentTime, s\<lparr>timerQueue := snd (pop (tasks s) (timerQueue s))\<rparr>),
                currentTime, s) \<in> measure (\<lambda>(currentTime, s). length (timerQueue s))"
      by (simp add: shorter)
  next
    fix currentTime :: int and s s1 s2 s3 :: scheduler and timer
    assume "peek (timerQueue s) = Some timer"
      and s1: "s1 = s\<lparr>timerQueue := snd (pop (tasks s) (timerQueue s))\<rparr>"
      and s2: "s2 = s1\<lparr>tasks := (tasks s1)(timer :=
                          (tasks s1 timer)\<lparr>sortIndex := expirationTime (tasks s1 timer)\<rparr>)\<rparr>"
      and s3: "s3 = s2\<lparr>taskQueue := push (tasks s2) (taskQueue s2) timer\<rparr>"
    then have "timerQueue s \<noteq> []"
      by (auto simp: peek_def)
    then show "((currentTime, s3), currentTime, s)
                \<in> measure (\<lambda>(currentTime, s). length (timerQueue s))"
      by (simp add: s1 s2 s3 shorter)
  qed
qed

declare advanceTimers.simps [simp del]

datatype control = Next | Break | Raised

text \<open>
  \<open>call_callback\<close> is the call \<open>callback(didUserCallbackTimeout)\<close> of the loop's body with
  the two assignments before it: it gives what the callback returned and the state at
  that moment. \<open>workLoop_turn\<close> is one turn of the \<open>while\<close> loop of \<open>workLoop\<close>, for the
  task \<open>t\<close> that \<open>currentTask\<close> refers to: the test that leaves the loop, then the body,
  up to and including \<open>currentTask = peek(taskQueue)\<close>. It gives how the turn ends, the
  local \<open>currentTime\<close> and the state.
\<close>

definition call_callback ::
    "nat \<Rightarrow> callback \<Rightarrow> int \<Rightarrow> scheduler \<Rightarrow> callback outcome \<times> scheduler" where
  "call_callback t cb currentTime s =
     (let s1 = s\<lparr>tasks := (tasks s)(t := (tasks s t)\<lparr>callback := None\<rparr>),
                  currentPriorityLevel := priorityLevel (tasks s t)\<rparr>;
          didUserCallbackTimeout = expirationTime (tasks s1 t) \<le> currentTime;
          called = invoke cb didUserCallbackTimeout
      in (snd called,
          apply_calls (fst called)
            (s1\<lparr>invocations := invocations s1 @ [(t, didUserCallbackTimeout)]\<rparr>)))"

definition workLoop_turn :: "bool \<Rightarrow> int \<Rightarrow> nat \<Rightarrow> scheduler \<Rightarrow> control \<times> int \<times> scheduler" where
  "workLoop_turn hasTimeRemaining currentTime t s =
     (if expirationTime (tasks s t) > currentTime
         \<and> (\<not> hasTimeRemaining \<or> shouldYieldToHost s)
      then (Break, currentTime, s)
      else case callback (tasks s t) of
        Some cb \<Rightarrow>
          (case call_callback t cb currentTime s of
             (Throws, s2) \<Rightarrow> (Raised, currentTime, s2)
           | (ReturnsFunction continuationCallback, s2) \<Rightarrow>
               (let currentTime' = getCurrentTime s2;
                    s3 = s2\<lparr>tasks := (tasks s2)(t :=
                            (tasks s2 t)\<lparr>callback := Some continuationCallback\<rparr>)\<rparr>;
                    s4 = advanceTimers currentTime' s3
                in (Next, currentTime', s4\<lparr>currentTask := peek (taskQueue s4)\<rparr>))
           | (ReturnsOther, s2) \<Rightarrow>
               (let currentTime' = getCurrentTime s2;
                    s3 = (if Some t = peek (taskQueue s2)
                          then s2\<lparr>taskQueue := snd (pop (tasks s2) (taskQueue s2))\<rparr>
                          else s2);
                    s4 = advanceTimers currentTime' s3
                in (Next, currentTime', s4\<lparr>currentTask := peek (taskQueue s4)\<rparr>)))
      | None \<Rightarrow>
          (let s1 = s\<lparr>taskQueue := snd (pop (tasks s) (taskQueue s))\<rparr>
           in (Next, currentTime, s1\<lparr>currentTask := peek (taskQueue s1)\<rparr>)))"

text \<open>
  The \<open>while\<close> loop. A chain of continuations need not end, so the loop is a partial
  function: \<open>None\<close> is a loop that never leaves. The result says whether a callback
  threw, and gives the local \<open>currentTime\<close> and the state.
\<close>

partial_function (option) workLoop_while ::
    "bool \<Rightarrow> int \<Rightarrow> scheduler \<Rightarrow> (bool \<times> int \<times> scheduler) option" where
  "workLoop_while hasTimeRemaining currentTime s =
     (case currentTask s of
        None \<Rightarrow> Some (False, currentTime, s)
      | Some t \<Rightarrow>
          if enableSchedulerDebugging s \<and> isSchedulerPaused s then Some (False, currentTime, s)
          else let turn = workLoop_turn hasTimeRemaining currentTime t s
               in if fst turn = Next
                  then workLoop_while hasTimeRemaining (fst (snd turn)) (snd (snd turn))
                  else Some (fst turn = Raised, snd turn))"

declare workLoop_while.simps [code]

datatype 'a completion = Returned 'a | Thrown

definition workLoop :: "bool \<Rightarrow> int \<Rightarrow> scheduler \<Rightarrow> (bool completion \<times> scheduler) option" where
  "workLoop hasTimeRemaining initialTime s =
     (let currentTime = initialTime;
          s1 = advanceTimers currentTime s;
          s2 = s1\<lparr>currentTask := peek (taskQueue s1)\<rparr>
      in case workLoop_while hasTimeRemaining currentTime s2 of
           None \<Rightarrow> None
         | Some (threw, currentTime', s3) \<Rightarrow>
             if threw then Some (Thrown, s3)
             else if currentTask s3 \<noteq> None then Some (Returned True, s3)
             else (case peek (timerQueue s3) of
                     Some firstTimer \<Rightarrow>
                       Some (Returned False,
                         requestHostTimeout (startTime (tasks s3 firstTimer) - currentTime') s3)
                   | None \<Rightarrow> Some (Returned False, s3)))"

definition flushWork :: "bool \<Rightarrow> int \<Rightarrow> scheduler \<Rightarrow> (bool completion \<times> scheduler) option" where
  "flushWork hasTimeRemaining initialTime s =
     (let s1 = s\<lparr>isHostCallbackScheduled := False\<rparr>;
          s2 = (if isHostTimeoutScheduled s1
                then cancelHostTimeout (s1\<lparr>isHostTimeoutScheduled := False\<rparr>) else s1);
          s3 = s2\<lparr>isPerformingWork := True\<rparr>;
          previousPriorityLevel = currentPriorityLevel s3
      in case workLoop hasTimeRemaining initialTime s3 of
           None \<Rightarrow> None
         | Some (r, s4) \<Rightarrow>
             Some (r, s4\<lparr>currentTask := None, currentPriorityLevel := previousPriorityLevel,
                         isPerformingWork := False\<rparr>))"

text \<open>
  The state of the module when it is loaded, with the clock at \<open>0\<close>; no task object is
  allocated yet, and the store holds a blank object at every address.
\<close>

definition blank_task :: task where
  "blank_task = \<lparr>id' = 0, callback = None, priorityLevel = NormalPriority, startTime = 0,
                  expirationTime = 0, sortIndex = - 1\<rparr>"

definition initial_scheduler :: scheduler where
  "initial_scheduler =
     \<lparr>tasks = (\<lambda>r. blank_task), taskQueue = [], timerQueue = [], taskIdCounter = 1,
      isSchedulerPaused = False, currentTask = None, currentPriorityLevel = NormalPriority,
      isPerformingWork = False, isHostCallbackScheduled = False,
      isHostTimeoutScheduled = False, enableSchedulerDebugging = False, now = 0,
      deadline = 0, scheduledHostCallback = False, isMessageLoopRunning = False,
      taskTimeoutID = None, invocations = []\<rparr>"

text \<open>A callback that calls nothing and returns no continuation.\<close>

definition finish :: callback where
  "finish = Callback (\<lambda>didTimeout. ([], ReturnsOther))"

subsection \<open>Invariants and scenarios of the scheduler\<close>

text \<open>
  \<open>queues_ok\<close> is the invariant of the two queues: a task object is in at most one of
  them, at most once, and every object in them was allocated by
  \<open>unstable_scheduleCallback\<close>. \<open>grows s s'\<close> collects what the calls a callback makes can
  do to the state, and \<open>advanced s s'\<close> what \<open>advanceTimers\<close> can do.
\<close>

definition queues_ok :: "scheduler \<Rightarrow> bool" where
  "queues_ok s =
     (distinct (taskQueue s @ timerQueue s)
      \<and> list_all (\<lambda>r. r < taskIdCounter s) (taskQueue s @ timerQueue s))"

definition grows :: "scheduler \<Rightarrow> scheduler \<Rightarrow> bool" where
  "grows s s' =
     (taskIdCounter s \<le> taskIdCounter s'
      \<and> invocations s' = invocations s
      \<and> mset (taskQueue s) \<subseteq># mset (taskQueue s')
      \<and> (\<forall>r. r < taskIdCounter s \<longrightarrow>
             (r \<in> set (timerQueue s') \<longrightarrow> r \<in> set (timerQueue s))
             \<and> sortIndex (tasks s' r) = sortIndex (tasks s r)
             \<and> (callback (tasks s r) = None \<longrightarrow> callback (tasks s' r) = None))
      \<and> (queues_ok s \<longrightarrow> queues_ok s'))"

definition advanced :: "scheduler \<Rightarrow> scheduler \<Rightarrow> bool" where
  "advanced s s' =
     (taskIdCounter s' = taskIdCounter s
      \<and> invocations s' = invocations s
      \<and> mset (taskQueue s) \<subseteq># mset (taskQueue s')
      \<and> mset (taskQueue s') + mset (timerQueue s')
            \<subseteq># mset (taskQueue s) + mset (timerQueue s)
      \<and> (\<forall>r. callback (tasks s' r) = callback (tasks s r))
      \<and> (\<forall>r. r \<notin> set (timerQueue s) \<longrightarrow> tasks s' r = tasks s r))"


text \<open>
  A scenario: the module as loaded, after one call
  \<open>unstable_scheduleCallback(level, cb)\<close>, at the moment the work loop has set
  \<open>currentTask\<close>.
\<close>

definition one_ready :: "priority_level \<Rightarrow> callback \<Rightarrow> scheduler" where
  "one_ready level cb =
     (let s = snd (unstable_scheduleCallback level cb NoOptions initial_scheduler)
      in s\<lparr>currentTask := peek (taskQueue s)\<rparr>)"

text \<open>
  Three more callbacks for the scenarios: \<open>spawn\<close> schedules an Immediate task and returns
  no continuation; \<open>again\<close> returns a continuation. \<open>in_slice\<close> is a state inside a
  time slice of the host (\<open>performWorkUntilDeadline\<close> has set the deadline five time
  units ahead).
\<close>

definition spawn :: callback where
  "spawn = Callback (\<lambda>didTimeout.
     ([ScheduleCallback ImmediatePriority finish NoOptions], ReturnsOther))"

definition again :: callback where
  "again = Callback (\<lambda>didTimeout. ([], ReturnsFunction finish))"

definition in_slice :: "scheduler \<Rightarrow> scheduler" where
  "in_slice s = s\<lparr>deadline := now s + 5\<rparr>"

text \<open>One task is scheduled and then cancelled; the host then runs the work loop.\<close>

definition cancelled_one :: scheduler where
  "cancelled_one = unstable_cancelCallback 1 (in_slice (one_ready NormalPriority finish))"


inductive reachable :: "scheduler \<Rightarrow> bool" where
  loaded: "reachable initial_scheduler"
| scheduled: "reachable s \<Longrightarrow> reachable (snd (unstable_scheduleCallback level cb options s))"
| cancelled: "reachable s \<Longrightarrow> reachable (unstable_cancelCallback t s)"
| timers: "reachable s \<Longrightarrow> reachable (advanceTimers currentTime s)"
| turn: "reachable s \<Longrightarrow> currentTask s = Some t \<Longrightarrow>
         reachable (snd (snd (workLoop_turn hasTimeRemaining currentTime t s)))"
| other: "reachable s \<Longrightarrow> tasks s' = tasks s \<Longrightarrow> taskQueue s' = taskQueue s \<Longrightarrow>
          timerQueue s' = timerQueue s \<Longrightarrow> taskIdCounter s' = taskIdCounter s \<Longrightarrow>
          reachable s'"

section \<open>The child reconciler (ReactChildFiber.old.js)\<close>

text \<open>
  Fibers are objects that point at each other (\<open>sibling\<close>, \<open>alternate\<close>, \<open>return\<close>,
  \<open>nextEffect\<close>) and are updated in place, so the model keeps them in a store: a fiber is
  a reference (an address), \<open>fibers\<close> gives the object at an address, and \<open>fresh\<close> is the
  next address that a creation uses. \<open>None\<close> is \<open>null\<close>.

  The model follows the production path: \<open>__DEV__\<close> is off (no warnings, no hot
  reloading), and so are the flags \<open>enableBlocksAPI\<close> and \<open>enableLazyElements\<close>, whose
  module is not among the sources; with them off a Block fiber is treated as any other
  fiber and a lazy child as any other object. Props, \<open>mode\<close> and \<open>lanes\<close> are carried by
  the creation functions only and are not represented; an element's \<open>ref\<close> is taken to be
  null, a function or an object, which \<open>coerceRef\<close> returns as it is.
\<close>

subsection \<open>Fibers, elements and the store\<close>

text \<open>
  Modelled from the spec: the modules ReactWorkTags, ReactFiberFlags and ReactSymbols are
  not among the sources. \<open>work_tag\<close> has the tags this file imports, a tag for host
  elements and one for any other; the flags are distinct bits, of which only \<open>Placement\<close>
  and \<open>Deletion\<close> are assigned here. An element's \<open>type\<close> is the fragment symbol or some
  other value, named by a string.
\<close>

datatype work_tag =
  FunctionComponent | ClassComponent | HostComponent | HostText | HostPortal | ForwardRef
  | Fragment | SimpleMemoComponent | Block | OtherTag nat

definition NoFlags :: nat where
  "NoFlags = 0"

definition Placement :: nat where
  "Placement = 2"

definition Deletion :: nat where
  "Deletion = 8"

datatype elem_type = REACT_FRAGMENT_TYPE | TypeOf string

record fiber =
  tag :: work_tag
  key :: "string option"
  elementType :: "elem_type option"
  type' :: "elem_type option"
  stateNode :: "(nat \<times> nat) option"
  index :: nat
  sibling :: "nat option"
  return' :: "nat option"
  alternate :: "nat option"
  flags :: nat
  nextEffect :: "nat option"
  firstEffect :: "nat option"
  lastEffect :: "nat option"

record store =
  fibers :: "nat \<Rightarrow> fiber"
  fresh :: nat

text \<open>
  A new child, by the tests the reconciler makes on it: a string or number (as the text
  \<open>'' + newChild\<close>), an element, a portal, an array or iterable, an empty value (null,
  undefined, a boolean; a function is treated the same in production), or any other
  object.
\<close>

record element =
  ekey :: "string option"
  etype :: elem_type

record portal =
  pkey :: "string option"
  containerInfo :: nat
  implementation :: nat

datatype child =
  TextChild string
  | ElementChild element
  | PortalChild portal
  | ArrayChild "child list"
  | EmptyChild
  | ObjectChild

datatype error = InvalidObjectType

text \<open>Assignment to the fields of the fiber at an address.\<close>

definition upd :: "nat \<Rightarrow> (fiber \<Rightarrow> fiber) \<Rightarrow> store \<Rightarrow> store" where
  "upd r f st = st\<lparr>fibers := (fibers st)(r := f (fibers st r))\<rparr>"

subsection \<open>Creating fibers\<close>

text \<open>
  Modelled from the spec: the module ReactFiber.old.js (\<open>createWorkInProgress\<close>,
  \<open>createFiberFromElement\<close>, \<open>createFiberFromText\<close>, \<open>createFiberFromFragment\<close>,
  \<open>createFiberFromPortal\<close>) is not among the sources. By the spec (3 and 4.4) a reused
  node is a clone of the old work-node whose \<open>alternate\<close> refers to that old node, and a
  fresh node has \<open>alternate === null\<close> and the key and type of its description; either
  starts with no side-effect flag and an empty effect list. Each creation takes the next
  address of the store.
\<close>

definition new_fiber :: "work_tag \<Rightarrow> string option \<Rightarrow> elem_type option \<Rightarrow> fiber" where
  "new_fiber t k ty =
     \<lparr>tag = t, key = k, elementType = ty, type' = ty, stateNode = None, index = 0,
      sibling = None, return' = None, alternate = None, flags = NoFlags,
      nextEffect = None, firstEffect = None, lastEffect = None\<rparr>"

definition allocate :: "fiber \<Rightarrow> store \<Rightarrow> nat \<times> store" where
  "allocate f st = (fresh st, st\<lparr>fibers := (fibers st)(fresh st := f), fresh := fresh st + 1\<rparr>)"

definition createWorkInProgress :: "nat \<Rightarrow> store \<Rightarrow> nat \<times> store" where
  "createWorkInProgress current st =
     allocate ((fibers st current)
                 \<lparr>alternate := Some current, flags := NoFlags, nextEffect := None,
                  firstEffect := None, lastEffect := None\<rparr>) st"

definition tag_of_type :: "elem_type \<Rightarrow> work_tag" where
  "tag_of_type ty = (case ty of REACT_FRAGMENT_TYPE \<Rightarrow> Fragment | TypeOf n \<Rightarrow> HostComponent)"

definition createFiberFromElement :: "element \<Rightarrow> store \<Rightarrow> nat \<times> store" where
  "createFiberFromElement e st =
     allocate (new_fiber (tag_of_type (etype e)) (ekey e) (Some (etype e))) st"

definition createFiberFromText :: "string \<Rightarrow> store \<Rightarrow> nat \<times> store" where
  "createFiberFromText content st = allocate (new_fiber HostText None None) st"

definition createFiberFromFragment :: "string option \<Rightarrow> store \<Rightarrow> nat \<times> store" where
  "createFiberFromFragment k st = allocate (new_fiber Fragment k None) st"

definition createFiberFromPortal :: "portal \<Rightarrow> store \<Rightarrow> nat \<times> store" where
  "createFiberFromPortal p st =
     allocate ((new_fiber HostPortal (pkey p) None)
                 \<lparr>stateNode := Some (containerInfo p, implementation p)\<rparr>) st"

subsection \<open>The functions of \<open>ChildReconciler(shouldTrackSideEffects)\<close>\<close>

text \<open>
  Every function takes the flag \<open>shouldTrackSideEffects\<close> of the closure as its first
  argument \<open>track\<close>.
\<close>

definition deleteChild :: "bool \<Rightarrow> nat \<Rightarrow> nat \<Rightarrow> store \<Rightarrow> store" where
  "deleteChild track returnFiber childToDelete st =
     (if \<not> track then st
      else
        let st1 = (case lastEffect (fibers st returnFiber) of
                     Some lst \<Rightarrow>
                       upd returnFiber (\<lambda>f. f\<lparr>lastEffect := Some childToDelete\<rparr>)
                         (upd lst (\<lambda>f. f\<lparr>nextEffect := Some childToDelete\<rparr>) st)
                   | None \<Rightarrow>
                       upd returnFiber
                         (\<lambda>f. f\<lparr>firstEffect := Some childToDelete,
                                 lastEffect := Some childToDelete\<rparr>) st);
            st2 = upd childToDelete (\<lambda>f. f\<lparr>nextEffect := None\<rparr>) st1
        in upd childToDelete (\<lambda>f. f\<lparr>flags := Deletion\<rparr>) st2)"

text \<open>
  The loops that walk a sibling chain end only if the chain does, so they are partial
  functions: \<open>None\<close> is a walk that never ends.
\<close>

partial_function (option) deleteRemaining_loop :: "nat \<Rightarrow> nat option \<Rightarrow> store \<Rightarrow> store option" where
  "deleteRemaining_loop returnFiber childToDelete st =
     (case childToDelete of
        None \<Rightarrow> Some st
      | Some c \<Rightarrow>
          deleteRemaining_loop returnFiber
            (sibling (fibers (deleteChild True returnFiber c st) c))
            (deleteChild True returnFiber c st))"

declare deleteRemaining_loop.simps [code]

definition deleteRemainingChildren :: "bool \<Rightarrow> nat \<Rightarrow> nat option \<Rightarrow> store \<Rightarrow> store option" where
  "deleteRemainingChildren track returnFiber currentFirstChild st =
     (if \<not> track then Some st else deleteRemaining_loop returnFiber currentFirstChild st)"

text \<open>
  The \<open>Map\<close> of the remaining children, keyed by a string (the key) or a number (the
  index): an association list in insertion order, where setting a key that is present
  replaces its value in place.
\<close>

datatype map_key = KeyOf string | IndexOf nat

type_synonym child_map = "(map_key \<times> nat) list"

partial_function (option) mapRemaining_loop ::
    "nat option \<Rightarrow> child_map \<Rightarrow> store \<Rightarrow> child_map option" where
  "mapRemaining_loop existingChild existingChildren st =
     (case existingChild of
        None \<Rightarrow> Some existingChildren
      | Some c \<Rightarrow>
          mapRemaining_loop (sibling (fibers st c))
            (case key (fibers st c) of
               Some k \<Rightarrow> AList.update (KeyOf k) c existingChildren
             | None \<Rightarrow> AList.update (IndexOf (index (fibers st c))) c existingChildren)
            st)"

declare mapRemaining_loop.simps [code]

definition mapRemainingChildren :: "nat \<Rightarrow> nat \<Rightarrow> store \<Rightarrow> child_map option" where
  "mapRemainingChildren returnFiber currentFirstChild st =
     mapRemaining_loop (Some currentFirstChild) [] st"

definition useFiber :: "nat \<Rightarrow> store \<Rightarrow> nat \<times> store" where
  "useFiber fiber st =
     (case createWorkInProgress fiber st of
        (clone, st1) \<Rightarrow> (clone, upd clone (\<lambda>f. f\<lparr>index := 0, sibling := None\<rparr>) st1))"

definition placeChild :: "bool \<Rightarrow> nat \<Rightarrow> nat \<Rightarrow> nat \<Rightarrow> store \<Rightarrow> nat \<times> store" where
  "placeChild track newFiber lastPlacedIndex newIndex st =
     (let st1 = upd newFiber (\<lambda>f. f\<lparr>index := newIndex\<rparr>) st
      in if \<not> track then (lastPlacedIndex, st1)
         else case alternate (fibers st1 newFiber) of
                Some current \<Rightarrow>
                  let oldIndex = index (fibers st1 current)
                  in if oldIndex < lastPlacedIndex
                     then (lastPlacedIndex, upd newFiber (\<lambda>f. f\<lparr>flags := Placement\<rparr>) st1)
                     else (oldIndex, st1)
              | None \<Rightarrow> (lastPlacedIndex, upd newFiber (\<lambda>f. f\<lparr>flags := Placement\<rparr>) st1))"

definition placeSingleChild :: "bool \<Rightarrow> nat \<Rightarrow> store \<Rightarrow> nat \<times> store" where
  "placeSingleChild track newFiber st =
     (if track \<and> alternate (fibers st newFiber) = None
      then (newFiber, upd newFiber (\<lambda>f. f\<lparr>flags := Placement\<rparr>) st)
      else (newFiber, st))"

text \<open>\<open>created.return = returnFiber\<close> after a creation or a reuse.\<close>

definition returning :: "nat \<Rightarrow> nat \<times> store \<Rightarrow> nat \<times> store" where
  "returning returnFiber r = (fst r, upd (fst r) (\<lambda>f. f\<lparr>return' := Some returnFiber\<rparr>) (snd r))"

definition updateTextNode :: "nat \<Rightarrow> nat option \<Rightarrow> string \<Rightarrow> store \<Rightarrow> nat \<times> store" where
  "updateTextNode returnFiber current textContent st =
     (case current of
        None \<Rightarrow> returning returnFiber (createFiberFromText textContent st)
      | Some c \<Rightarrow>
          if tag (fibers st c) \<noteq> HostText
          then returning returnFiber (createFiberFromText textContent st)
          else returning returnFiber (useFiber c st))"

definition updateElement :: "nat \<Rightarrow> nat option \<Rightarrow> element \<Rightarrow> store \<Rightarrow> nat \<times> store" where
  "updateElement returnFiber current e st =
     (case current of
        Some c \<Rightarrow>
          if elementType (fibers st c) = Some (etype e)
          then returning returnFiber (useFiber c st)
          else returning returnFiber (createFiberFromElement e st)
      | None \<Rightarrow> returning returnFiber (createFiberFromElement e st))"

definition updatePortal :: "nat \<Rightarrow> nat option \<Rightarrow> portal \<Rightarrow> store \<Rightarrow> nat \<times> store" where
  "updatePortal returnFiber current p st =
     (case current of
        None \<Rightarrow> returning returnFiber (createFiberFromPortal p st)
      | Some c \<Rightarrow>
          if tag (fibers st c) \<noteq> HostPortal
             \<or> stateNode (fibers st c) \<noteq> Some (containerInfo p, implementation p)
          then returning returnFiber (createFiberFromPortal p st)
          else returning returnFiber (useFiber c st))"

definition updateFragment ::
    "nat \<Rightarrow> nat option \<Rightarrow> string option \<Rightarrow> store \<Rightarrow> nat \<times> store" where
  "updateFragment returnFiber current k st =
     (case current of
        None \<Rightarrow> returning returnFiber (createFiberFromFragment k st)
      | Some c \<Rightarrow>
          if tag (fibers st c) \<noteq> Fragment
          then returning returnFiber (createFiberFromFragment k st)
          else returning returnFiber (useFiber c st))"

text \<open>
  \<open>throwOnInvalidObjectType\<close> throws unless the parent is a \<open>textarea\<close>; where it returns,
  the caller goes on to its final \<open>return null\<close>.
\<close>

definition throwOnInvalidObjectType :: "nat \<Rightarrow> store \<Rightarrow> error + unit" where
  "throwOnInvalidObjectType returnFiber st =
     (if type' (fibers st returnFiber) \<noteq> Some (TypeOf ''textarea'')
      then Inl InvalidObjectType else Inr ())"

definition createChild :: "nat \<Rightarrow> child \<Rightarrow> store \<Rightarrow> error + nat option \<times> store" where
  "createChild returnFiber newChild st =
     (case newChild of
        TextChild text \<Rightarrow>
          (case returning returnFiber (createFiberFromText text st) of
             (created, st1) \<Rightarrow> Inr (Some created, st1))
      | ElementChild e \<Rightarrow>
          (case returning returnFiber (createFiberFromElement e st) of
             (created, st1) \<Rightarrow> Inr (Some created, st1))
      | PortalChild p \<Rightarrow>
          (case returning returnFiber (createFiberFromPortal p st) of
             (created, st1) \<Rightarrow> Inr (Some created, st1))
      | ArrayChild items \<Rightarrow>
          (case returning returnFiber (createFiberFromFragment None st) of
             (created, st1) \<Rightarrow> Inr (Some created, st1))
      | ObjectChild \<Rightarrow>
          (case throwOnInvalidObjectType returnFiber st of
             Inl err \<Rightarrow> Inl err
           | Inr u \<Rightarrow> Inr (None, st))
      | EmptyChild \<Rightarrow> Inr (None, st))"

definition updateSlot ::
    "nat \<Rightarrow> nat option \<Rightarrow> child \<Rightarrow> store \<Rightarrow> error + nat option \<times> store" where
  "updateSlot returnFiber oldFiber newChild st =
     (let k = (case oldFiber of Some old \<Rightarrow> key (fibers st old) | None \<Rightarrow> None)
      in case newChild of
        TextChild text \<Rightarrow>
          if k \<noteq> None then Inr (None, st)
          else (case updateTextNode returnFiber oldFiber text st of
                  (f, st1) \<Rightarrow> Inr (Some f, st1))
      | ElementChild e \<Rightarrow>
          if ekey e = k then
            if etype e = REACT_FRAGMENT_TYPE
            then (case updateFragment returnFiber oldFiber k st of
                    (f, st1) \<Rightarrow> Inr (Some f, st1))
            else (case updateElement returnFiber oldFiber e st of
                    (f, st1) \<Rightarrow> Inr (Some f, st1))
          else Inr (None, st)
      | PortalChild p \<Rightarrow>
          if pkey p = k
          then (case updatePortal returnFiber oldFiber p st of
                  (f, st1) \<Rightarrow> Inr (Some f, st1))
          else Inr (None, st)
      | ArrayChild items \<Rightarrow>
          if k \<noteq> None then Inr (None, st)
          else (case updateFragment returnFiber oldFiber None st of
                  (f, st1) \<Rightarrow> Inr (Some f, st1))
      | ObjectChild \<Rightarrow>
          (case throwOnInvalidObjectType returnFiber st of
             Inl err \<Rightarrow> Inl err
           | Inr u \<Rightarrow> Inr (None, st))
      | EmptyChild \<Rightarrow> Inr (None, st))"

definition element_key :: "string option \<Rightarrow> nat \<Rightarrow> map_key" where
  "element_key k newIdx = (case k of None \<Rightarrow> IndexOf newIdx | Some n \<Rightarrow> KeyOf n)"

definition updateFromMap ::
    "child_map \<Rightarrow> nat \<Rightarrow> nat \<Rightarrow> child \<Rightarrow> store \<Rightarrow> error + nat option \<times> store" where
  "updateFromMap existingChildren returnFiber newIdx newChild st =
     (case newChild of
        TextChild text \<Rightarrow>
          (case updateTextNode returnFiber (map_of existingChildren (IndexOf newIdx)) text st of
             (f, st1) \<Rightarrow> Inr (Some f, st1))
      | ElementChild e \<Rightarrow>
          (let matchedFiber = map_of existingChildren (element_key (ekey e) newIdx)
           in if etype e = REACT_FRAGMENT_TYPE
              then (case updateFragment returnFiber matchedFiber (ekey e) st of
                      (f, st1) \<Rightarrow> Inr (Some f, st1))
              else (case updateElement returnFiber matchedFiber e st of
                      (f, st1) \<Rightarrow> Inr (Some f, st1)))
      | PortalChild p \<Rightarrow>
          (case updatePortal returnFiber
                  (map_of existingChildren (element_key (pkey p) newIdx)) p st of
             (f, st1) \<Rightarrow> Inr (Some f, st1))
      | ArrayChild items \<Rightarrow>
          (case updateFragment returnFiber (map_of existingChildren (IndexOf newIdx)) None st of
             (f, st1) \<Rightarrow> Inr (Some f, st1))
      | ObjectChild \<Rightarrow>
          (case throwOnInvalidObjectType returnFiber st of
             Inl err \<Rightarrow> Inl err
           | Inr u \<Rightarrow> Inr (None, st))
      | EmptyChild \<Rightarrow> Inr (None, st))"

text \<open>
  The three variables \<open>resultingFirstChild\<close>, \<open>previousNewFiber\<close> and the store, after
  \<open>newFiber\<close> is linked at the end of the list being built.
\<close>

definition append_child ::
    "nat \<Rightarrow> nat option \<times> nat option \<times> store \<Rightarrow> nat option \<times> nat option \<times> store" where
  "append_child newFiber v =
     (case v of (resultingFirstChild, previousNewFiber, st) \<Rightarrow>
        (case previousNewFiber of
           None \<Rightarrow> (Some newFiber, Some newFiber, st)
         | Some p \<Rightarrow>
             (resultingFirstChild, Some newFiber,
              upd p (\<lambda>f. f\<lparr>sibling := Some newFiber\<rparr>) st)))"

text \<open>
  The first loop of \<open>reconcileChildrenArray\<close>, over the new children that are left. It
  gives the variables at the loop's exit: \<open>oldFiber\<close>, the new children not yet
  handled, \<open>newIdx\<close>, \<open>lastPlacedIndex\<close>, \<open>resultingFirstChild\<close>, \<open>previousNewFiber\<close> and
  the store.
\<close>

fun first_pass ::
    "bool \<Rightarrow> nat \<Rightarrow> nat option \<Rightarrow> child list \<Rightarrow> nat \<Rightarrow> nat \<Rightarrow> nat option \<Rightarrow> nat option \<Rightarrow> store
      \<Rightarrow> error + (nat option \<times> child list \<times> nat \<times> nat \<times> nat option \<times> nat option \<times> store)" where
  "first_pass track returnFiber oldFiber [] newIdx lastPlacedIndex first prev st =
     Inr (oldFiber, [], newIdx, lastPlacedIndex, first, prev, st)"
| "first_pass track returnFiber None (c # cs) newIdx lastPlacedIndex first prev st =
     Inr (None, c # cs, newIdx, lastPlacedIndex, first, prev, st)"
| "first_pass track returnFiber (Some old) (c # cs) newIdx lastPlacedIndex first prev st =
     (let oldFiber = (if index (fibers st old) > newIdx then None else Some old);
          nextOldFiber = (if index (fibers st old) > newIdx then Some old
                          else sibling (fibers st old))
      in case updateSlot returnFiber oldFiber c st of
           Inl err \<Rightarrow> Inl err
         | Inr (None, st1) \<Rightarrow>
             Inr ((if oldFiber = None then nextOldFiber else oldFiber), c # cs, newIdx,
                  lastPlacedIndex, first, prev, st1)
         | Inr (Some newFiber, st1) \<Rightarrow>
             (let st2 = (if track \<and> oldFiber \<noteq> None \<and> alternate (fibers st1 newFiber) = None
                         then deleteChild track returnFiber old st1 else st1);
                  placed = placeChild track newFiber lastPlacedIndex newIdx st2;
                  joined = append_child newFiber (first, prev, snd placed)
              in first_pass track returnFiber nextOldFiber cs (newIdx + 1) (fst placed)
                   (fst joined) (fst (snd joined)) (snd (snd joined))))"

text \<open>The loop that creates the rest when no old fiber is left.\<close>

fun create_rest ::
    "bool \<Rightarrow> nat \<Rightarrow> child list \<Rightarrow> nat \<Rightarrow> nat \<Rightarrow> nat option \<Rightarrow> nat option \<Rightarrow> store
      \<Rightarrow> error + (nat option \<times> store)" where
  "create_rest track returnFiber [] newIdx lastPlacedIndex first prev st = Inr (first, st)"
| "create_rest track returnFiber (c # cs) newIdx lastPlacedIndex first prev st =
     (case createChild returnFiber c st of
        Inl err \<Rightarrow> Inl err
      | Inr (None, st1) \<Rightarrow>
          create_rest track returnFiber cs (newIdx + 1) lastPlacedIndex first prev st1
      | Inr (Some newFiber, st1) \<Rightarrow>
          (let placed = placeChild track newFiber lastPlacedIndex newIdx st1;
               joined = append_child newFiber (first, prev, snd placed)
           in create_rest track returnFiber cs (newIdx + 1) (fst placed)
                (fst joined) (fst (snd joined)) (snd (snd joined))))"

text \<open>The loop that looks the rest up in the map of the remaining old children.\<close>

fun map_rest ::
    "bool \<Rightarrow> nat \<Rightarrow> child_map \<Rightarrow> child list \<Rightarrow> nat \<Rightarrow> nat \<Rightarrow> nat option \<Rightarrow> nat option \<Rightarrow> store
      \<Rightarrow> error + (child_map \<times> nat option \<times> store)" where
  "map_rest track returnFiber existingChildren [] newIdx lastPlacedIndex first prev st =
     Inr (existingChildren, first, st)"
| "map_rest track returnFiber existingChildren (c # cs) newIdx lastPlacedIndex first prev st =
     (case updateFromMap existingChildren returnFiber newIdx c st of
        Inl err \<Rightarrow> Inl err
      | Inr (None, st1) \<Rightarrow>
          map_rest track returnFiber existingChildren cs (newIdx + 1) lastPlacedIndex
            first prev st1
      | Inr (Some newFiber, st1) \<Rightarrow>
          (let existingChildren' =
                 (if track \<and> alternate (fibers st1 newFiber) \<noteq> None
                  then AList.delete (element_key (key (fibers st1 newFiber)) newIdx)
                         existingChildren
                  else existingChildren);
               placed = placeChild track newFiber lastPlacedIndex newIdx st1;
               joined = append_child newFiber (first, prev, snd placed)
           in map_rest track returnFiber existingChildren' cs (newIdx + 1) (fst placed)
                (fst joined) (fst (snd joined)) (snd (snd joined))))"

text \<open>
  \<open>reconcileChildrenArray\<close> gives the new first child and the store, or the error thrown;
  \<open>None\<close> is a call that does not return.
\<close>

definition reconcileChildrenArray ::
    "bool \<Rightarrow> nat \<Rightarrow> nat option \<Rightarrow> child list \<Rightarrow> store \<Rightarrow> (error + nat option \<times> store) option" where
  "reconcileChildrenArray track returnFiber currentFirstChild newChildren st =
     (case first_pass track returnFiber currentFirstChild newChildren 0 0 None None st of
        Inl err \<Rightarrow> Some (Inl err)
      | Inr (oldFiber, rest, newIdx, lastPlacedIndex, first, prev, st1) \<Rightarrow>
          if rest = [] then
            (case deleteRemainingChildren track returnFiber oldFiber st1 of
               None \<Rightarrow> None
             | Some st2 \<Rightarrow> Some (Inr (first, st2)))
          else
            (case oldFiber of
               None \<Rightarrow>
                 Some (create_rest track returnFiber rest newIdx lastPlacedIndex first prev st1)
             | Some old \<Rightarrow>
                 (case mapRemainingChildren returnFiber old st1 of
                    None \<Rightarrow> None
                  | Some existingChildren \<Rightarrow>
                      (case map_rest track returnFiber existingChildren rest newIdx
                              lastPlacedIndex first prev st1 of
                         Inl err \<Rightarrow> Some (Inl err)
                       | Inr (existingChildren', first', st2) \<Rightarrow>
                           Some (Inr (first',
                             if track
                             then foldl (\<lambda>s kv. deleteChild track returnFiber (snd kv) s) st2
                                    existingChildren'
                             else st2))))))"

text \<open>
  In \<open>reconcileSingleElement\<close>, what happens at the old child \<open>c\<close> whose key equals the
  element's. \<open>same_type\<close> is the test the \<open>switch\<close> on \<open>child.tag\<close> makes: a Fragment fiber
  matches a fragment element, any other fiber matches when \<open>child.elementType ===
  element.type\<close>. \<open>key_matched\<close> gives the fiber reused, or \<open>None\<close> after the \<open>break\<close> that
  leads to a creation.
\<close>

definition same_type :: "fiber \<Rightarrow> element \<Rightarrow> bool" where
  "same_type f e =
     (case tag f of
        Fragment \<Rightarrow> etype e = REACT_FRAGMENT_TYPE
      | _ \<Rightarrow> elementType f = Some (etype e))"

definition key_matched ::
    "bool \<Rightarrow> nat \<Rightarrow> element \<Rightarrow> nat \<Rightarrow> store \<Rightarrow> (nat option \<times> store) option" where
  "key_matched track returnFiber e c st =
     (if same_type (fibers st c) e then
        (case deleteRemainingChildren track returnFiber (sibling (fibers st c)) st of
           None \<Rightarrow> None
         | Some st1 \<Rightarrow>
             (case returning returnFiber (useFiber c st1) of
                (existing, st2) \<Rightarrow> Some (Some existing, st2)))
      else
        (case deleteRemainingChildren track returnFiber (Some c) st of
           None \<Rightarrow> None
         | Some st1 \<Rightarrow> Some (None, st1)))"

partial_function (option) single_element_loop ::
    "bool \<Rightarrow> nat \<Rightarrow> element \<Rightarrow> nat option \<Rightarrow> store \<Rightarrow> (nat option \<times> store) option" where
  "single_element_loop track returnFiber e child st =
     (case child of
        None \<Rightarrow> Some (None, st)
      | Some c \<Rightarrow>
          if key (fibers st c) = ekey e then key_matched track returnFiber e c st
          else single_element_loop track returnFiber e
                 (sibling (fibers (deleteChild track returnFiber c st) c))
                 (deleteChild track returnFiber c st))"

declare single_element_loop.simps [code]

definition reconcileSingleElement ::
    "bool \<Rightarrow> nat \<Rightarrow> nat option \<Rightarrow> element \<Rightarrow> store \<Rightarrow> (nat \<times> store) option" where
  "reconcileSingleElement track returnFiber currentFirstChild e st =
     (case single_element_loop track returnFiber e currentFirstChild st of
        None \<Rightarrow> None
      | Some (Some existing, st1) \<Rightarrow> Some (existing, st1)
      | Some (None, st1) \<Rightarrow>
          if etype e = REACT_FRAGMENT_TYPE
          then Some (returning returnFiber (createFiberFromFragment (ekey e) st1))
          else Some (returning returnFiber (createFiberFromElement e st1)))"

text \<open>
  A list threaded through a link field (\<open>sibling\<close> or \<open>nextEffect\<close>): \<open>linked nxt st p as\<close>
  says that following the field from \<open>p\<close> visits the addresses \<open>as\<close> and then reaches
  null. \<open>effect_list st f es\<close> says that the effect list of the fiber \<open>f\<close> holds \<open>es\<close>.
\<close>

primrec linked :: "(fiber \<Rightarrow> nat option) \<Rightarrow> store \<Rightarrow> nat option \<Rightarrow> nat list \<Rightarrow> bool" where
  "linked nxt st p [] \<longleftrightarrow> p = None"
| "linked nxt st p (a # as) \<longleftrightarrow> p = Some a \<and> linked nxt st (nxt (fibers st a)) as"

definition effect_list :: "store \<Rightarrow> nat \<Rightarrow> nat list \<Rightarrow> bool" where
  "effect_list st f es =
     (if es = [] then lastEffect (fibers st f) = None
      else linked nextEffect st (firstEffect (fibers st f)) es
           \<and> lastEffect (fibers st f) = Some (last es))"

text \<open>
  A scenario: a parent (address 0) whose committed children are three \<open>li\<close> fibers with
  the keys a, b and c (addresses 1, 2, 3; indices 0, 1, 2). \<open>el k\<close> is an \<open>li\<close> element
  with the key \<open>k\<close>. \<open>summary\<close> reads a result: the new first child, then for every
  fiber the call created its key, \<open>alternate\<close>, \<open>index\<close>, \<open>flags\<close> and \<open>sibling\<close>, then the
  flags of the three old children.
\<close>

definition blank_fiber :: fiber where
  "blank_fiber = new_fiber (OtherTag 0) None None"

definition li :: "string \<Rightarrow> nat \<Rightarrow> nat option \<Rightarrow> fiber" where
  "li k i sib =
     (new_fiber HostComponent (Some k) (Some (TypeOf ''li'')))
       \<lparr>index := i, sibling := sib, return' := Some 0\<rparr>"

definition old_abc :: store where
  "old_abc =
     \<lparr>fibers = (\<lambda>r. blank_fiber)
         (0 := new_fiber HostComponent None (Some (TypeOf ''ul'')),
          1 := li ''a'' 0 (Some 2),
          2 := li ''b'' 1 (Some 3),
          3 := li ''c'' 2 None),
      fresh = 4\<rparr>"

definition el :: "string \<Rightarrow> child" where
  "el k = ElementChild \<lparr>ekey = Some k, etype = TypeOf ''li''\<rparr>"

definition summary :: "(error + nat option \<times> store) option \<Rightarrow> (nat option \<times> (string option \<times> nat option \<times> nat \<times> nat \<times> nat option) list \<times> nat list) option" where
  "summary r =
     (case r of
        Some (Inr (first, st)) \<Rightarrow>
          Some (first,
                map (\<lambda>a. (key (fibers st a), alternate (fibers st a), index (fibers st a),
                           flags (fibers st a), sibling (fibers st a))) [4 ..< fresh st],
                map (\<lambda>a. flags (fibers st a)) [1, 2, 3])
      | _ \<Rightarrow> None)"

text \<open>
  The keys of the fibers a call created and flagged \<open>Placement\<close>, in the scenario (the
  created fibers are those from address 4 on).
\<close>

definition placed_keys :: "(error + nat option \<times> store) option \<Rightarrow> string option list option" where
  "placed_keys r =
     (case r of
        Some (Inr (first, st)) \<Rightarrow>
          Some (map (\<lambda>a. key (fibers st a))
                  (filter (\<lambda>a. flags (fibers st a) = Placement) [4 ..< fresh st]))
      | _ \<Rightarrow> None)"

subsection \<open>Frames and single steps of the reconciler\<close>

text \<open>
  \<open>marks st st' ds\<close>: from \<open>st\<close> to \<open>st'\<close> the fibers \<open>ds\<close> were flagged \<open>Deletion\<close>, and no
  other flag, link, key or type of any fiber changed.
\<close>

definition marks :: "store \<Rightarrow> store \<Rightarrow> nat list \<Rightarrow> bool" where
  "marks st st' ds =
     ((\<forall>a. flags (fibers st' a) = (if a \<in> set ds then Deletion else flags (fibers st a))
          \<and> sibling (fibers st' a) = sibling (fibers st a)
          \<and> alternate (fibers st' a) = alternate (fibers st a)
          \<and> index (fibers st' a) = index (fibers st a)
          \<and> key (fibers st' a) = key (fibers st a)
          \<and> tag (fibers st' a) = tag (fibers st a)
          \<and> elementType (fibers st' a) = elementType (fibers st a))
      \<and> fresh st' = fresh st)"

text \<open>
  \<open>slot_type_match\<close> is the test \<open>updateSlot\<close> makes once the keys are equal: a fragment
  element matches a Fragment fiber (\<open>updateFragment\<close>), any other element matches when
  \<open>current.elementType === element.type\<close> (\<open>updateElement\<close>). \<open>reused f old i sib rf\<close> is
  the clone of the fiber \<open>f\<close> at \<open>old\<close> once it is placed at index \<open>i\<close> with the sibling
  \<open>sib\<close> under the parent \<open>rf\<close>. \<open>step_store\<close> is the store after one turn of the first
  loop that reuses \<open>old\<close>.
\<close>

definition slot_type_match :: "fiber \<Rightarrow> element \<Rightarrow> bool" where
  "slot_type_match f e =
     (if etype e = REACT_FRAGMENT_TYPE then tag f = Fragment
      else elementType f = Some (etype e))"

definition reused :: "fiber \<Rightarrow> nat \<Rightarrow> nat \<Rightarrow> nat option \<Rightarrow> nat \<Rightarrow> fiber" where
  "reused f old i sib rf =
     f\<lparr>alternate := Some old, flags := NoFlags, nextEffect := None, firstEffect := None,
       lastEffect := None, index := i, sibling := sib, return' := Some rf\<rparr>"

definition step_store :: "store \<Rightarrow> nat \<Rightarrow> nat \<Rightarrow> nat \<Rightarrow> nat option \<Rightarrow> store" where
  "step_store st rf old i prev =
     snd (snd (append_child (fresh st)
       (None, prev, upd (fresh st) (\<lambda>f. f\<lparr>index := i\<rparr>) (snd (returning rf (useFiber old st))))))"

section \<open>Properties of the scheduler\<close>

subsection \<open>The heap keeps its items\<close>

lemma length_siftDown: "length (siftDown ts heap node i) = length heap"
proof (induction ts heap node i rule: siftDown.induct)
  case (1 ts heap node i)
  show ?case
    by (subst siftDown.simps) (simp add: Let_def 1)
qed

lemma length_pop: "heap \<noteq> [] \<Longrightarrow> length (snd (pop ts heap)) < length heap"
  by (cases heap) (simp_all add: pop_def Let_def length_siftDown)

lemma mset_siftUp:
  "i < length heap \<Longrightarrow> heap ! i = node
    \<Longrightarrow> mset (siftUp ts heap node i) = mset heap"
proof (induction ts heap node i rule: siftUp.induct)
  case (1 ts heap node i)
  show ?case
  proof (cases "i = 0")
    case True
    then show ?thesis by (subst siftUp.simps) simp
  next
    case False
    define parentIndex where "parentIndex = (i - 1) div 2"
    have lt: "parentIndex < i" using False by (simp add: parentIndex_def)
    show ?thesis
    proof (cases "compare ts (heap ! parentIndex) node > 0")
      case True
      let ?h = "heap[parentIndex := node, i := heap ! parentIndex]"
      have "mset (siftUp ts ?h node parentIndex) = mset ?h"
        using "1.IH"[OF False parentIndex_def refl True] lt "1.prems" by simp
      moreover have "mset ?h = mset heap"
        using mset_swap[of i heap parentIndex] lt "1.prems" by simp
      ultimately show ?thesis
        using False True by (subst siftUp.simps) (simp add: Let_def parentIndex_def)
    next
      case False
      then show ?thesis using \<open>i \<noteq> 0\<close>
        by (subst siftUp.simps) (simp add: Let_def parentIndex_def)
    qed
  qed
qed

lemma mset_push: "mset (push ts heap node) = add_mset node (mset heap)"
  by (simp add: push_def mset_siftUp)

lemma set_push: "set (push ts heap node) = insert node (set heap)"
  using mset_push[of ts heap node]
  by (metis mset_eq_setD set_mset_add_mset_insert set_mset_mset)

lemma mset_siftDown:
  "i < length heap \<Longrightarrow> heap ! i = node
    \<Longrightarrow> mset (siftDown ts heap node i) = mset heap"
proof (induction "length heap - i" arbitrary: heap i rule: less_induct)
  case less
  have swap: "mset (siftDown ts (heap[i := heap ! c, c := node]) node c) = mset heap"
    if c: "i < c" "c < length heap" for c
  proof -
    let ?h = "heap[i := heap ! c, c := node]"
    have "mset (siftDown ts ?h node c) = mset ?h"
      using less.hyps[of ?h c] c less.prems by simp
    moreover have "mset ?h = mset heap"
      using mset_swap[of c heap i] c less.prems by simp
    ultimately show ?thesis by simp
  qed
  show ?case
    using less.prems
    by (subst siftDown.simps) (simp add: Let_def swap)
qed

lemma mset_pop:
  "heap \<noteq> [] \<Longrightarrow> mset (snd (pop ts heap)) = mset heap - {#hd heap#}"
proof (cases heap)
  case Nil
  assume "heap \<noteq> []"
  with Nil show ?thesis by simp
next
  case (Cons first rest)
  show ?thesis
  proof (cases "last heap = first")
    case True
    have "mset heap = add_mset (last heap) (mset (butlast heap))"
      using Cons by (metis append_butlast_last_id list.distinct(1) mset.simps(2) mset_append union_mset_add_mset_right add.right_neutral mset.simps(1))
    then show ?thesis
      using True Cons by (simp add: pop_def Let_def)
  next
    case False
    then have ne: "rest \<noteq> []" using Cons by auto
    then have bl: "butlast heap = first # butlast rest" using Cons by simp
    have "mset (siftDown ts ((butlast heap)[0 := last heap]) (last heap) 0)
            = mset ((butlast heap)[0 := last heap])"
      by (rule mset_siftDown) (simp_all add: bl)
    also have "\<dots> = add_mset (last rest) (mset (butlast rest))"
      using ne Cons by (simp add: bl)
    also have "\<dots> = mset rest"
      using ne by (metis append_butlast_last_id mset.simps(2) mset_append union_mset_add_mset_right add.right_neutral mset.simps(1))
    finally show ?thesis
      using False Cons by (simp add: pop_def Let_def)
  qed
qed

lemma fst_pop: "fst (pop ts heap) = peek heap"
  by (cases heap) (simp_all add: pop_def peek_def Let_def)

subsection \<open>What scheduling, cancelling and timers leave alone\<close>

lemma grows_refl: "grows s s"
  by (simp add: grows_def)

lemma grows_trans:
  assumes a: "grows s s'" and b: "grows s' s''"
  shows "grows s s''"
proof -
  have le: "taskIdCounter s \<le> taskIdCounter s'" "taskIdCounter s' \<le> taskIdCounter s''"
    using a b by (simp_all add: grows_def)
  have 1: "taskIdCounter s \<le> taskIdCounter s''"
    using le by simp
  have 2: "invocations s'' = invocations s"
    using a b by (simp add: grows_def)
  have 3: "mset (taskQueue s) \<subseteq># mset (taskQueue s'')"
    using a b unfolding grows_def by (meson subset_mset.order_trans)
  have 4: "(r \<in> set (timerQueue s'') \<longrightarrow> r \<in> set (timerQueue s))
             \<and> sortIndex (tasks s'' r) = sortIndex (tasks s r)
             \<and> (callback (tasks s r) = None \<longrightarrow> callback (tasks s'' r) = None)"
    if r: "r < taskIdCounter s" for r
  proof -
    have r': "r < taskIdCounter s'" using r le by simp
    have x: "(r \<in> set (timerQueue s') \<longrightarrow> r \<in> set (timerQueue s))
             \<and> sortIndex (tasks s' r) = sortIndex (tasks s r)
             \<and> (callback (tasks s r) = None \<longrightarrow> callback (tasks s' r) = None)"
      using a r unfolding grows_def by blast
    have y: "(r \<in> set (timerQueue s'') \<longrightarrow> r \<in> set (timerQueue s'))
             \<and> sortIndex (tasks s'' r) = sortIndex (tasks s' r)
             \<and> (callback (tasks s' r) = None \<longrightarrow> callback (tasks s'' r) = None)"
      using b r' unfolding grows_def by blast
    from x y show ?thesis by simp
  qed
  have 5: "queues_ok s \<longrightarrow> queues_ok s''"
    using a b by (simp add: grows_def)
  show ?thesis
    unfolding grows_def using 1 2 3 4 5 by blast
qed

lemma queues_ok_mset:
  "queues_ok s \<longleftrightarrow>
     (\<forall>r. count (mset (taskQueue s) + mset (timerQueue s)) r \<le> 1)
     \<and> (\<forall>r \<in># mset (taskQueue s) + mset (timerQueue s). r < taskIdCounter s)"
proof -
  have "distinct (taskQueue s @ timerQueue s)
          \<longleftrightarrow> (\<forall>r. count (mset (taskQueue s) + mset (timerQueue s)) r \<le> 1)"
    unfolding distinct_count_atmost_1 mset_append[symmetric]
    by (metis count_mset_0_iff le_numeral_extra(4) zero_le_one le_antisym not_gr_zero
          less_one count_greater_eq_one_iff set_mset_mset)
  then show ?thesis
    unfolding queues_ok_def list_all_iff by (simp del: mset_append add: mset_append[symmetric])
qed

lemma grows_scheduleCallback: "grows s (snd (unstable_scheduleCallback P cb opts s))"
proof -
  let ?s' = "snd (unstable_scheduleCallback P cb opts s)"
  let ?n = "taskIdCounter s"
  have c: "taskIdCounter ?s' = Suc ?n"
    by (simp add: unstable_scheduleCallback_def Let_def requestHostTimeout_def
          cancelHostTimeout_def requestHostCallback_def)
  have i: "invocations ?s' = invocations s"
    by (simp add: unstable_scheduleCallback_def Let_def requestHostTimeout_def
          cancelHostTimeout_def requestHostCallback_def)
  have q: "(mset (taskQueue ?s') = add_mset ?n (mset (taskQueue s))
              \<and> timerQueue ?s' = timerQueue s)
           \<or> (mset (timerQueue ?s') = add_mset ?n (mset (timerQueue s))
              \<and> taskQueue ?s' = taskQueue s)"
    by (simp add: unstable_scheduleCallback_def Let_def requestHostTimeout_def
          cancelHostTimeout_def requestHostCallback_def mset_push)
  have t: "tasks ?s' r = tasks s r" if "r \<noteq> ?n" for r
    using that
    by (simp add: unstable_scheduleCallback_def Let_def requestHostTimeout_def
          cancelHostTimeout_def requestHostCallback_def)
  have sub: "mset (taskQueue s) \<subseteq># mset (taskQueue ?s')"
    using q by auto
  have "set (timerQueue ?s') \<subseteq> insert ?n (set (timerQueue s))"
  proof (rule disjE[OF q])
    assume "mset (taskQueue ?s') = add_mset ?n (mset (taskQueue s))
              \<and> timerQueue ?s' = timerQueue s"
    then show ?thesis by auto
  next
    assume "mset (timerQueue ?s') = add_mset ?n (mset (timerQueue s))
              \<and> taskQueue ?s' = taskQueue s"
    then have "set_mset (mset (timerQueue ?s')) = set_mset (add_mset ?n (mset (timerQueue s)))"
      by simp
    then show ?thesis by simp
  qed
  then have tm: "r \<in> set (timerQueue s)" if "r < ?n" "r \<in> set (timerQueue ?s')" for r
    using that by auto
  have ok: "queues_ok ?s'" if "queues_ok s"
  proof -
    have sum: "mset (taskQueue ?s') + mset (timerQueue ?s')
                = add_mset ?n (mset (taskQueue s) + mset (timerQueue s))"
      using q by auto
    have "?n \<notin># mset (taskQueue s) + mset (timerQueue s)"
      using that unfolding queues_ok_mset by auto
    then have "count (mset (taskQueue s) + mset (timerQueue s)) ?n = 0"
      by (simp only: count_eq_zero_iff not_False_eq_True)
    then show ?thesis
      using that unfolding queues_ok_mset sum c
      by (auto simp: less_Suc_eq)
  qed
  show ?thesis
    unfolding grows_def using c i sub tm ok t by auto
qed

lemma grows_cancelCallback: "grows s (unstable_cancelCallback t s)"
  by (simp add: grows_def unstable_cancelCallback_def queues_ok_def)

lemma grows_apply_call: "grows s (apply_call c s)"
  by (cases c) (simp_all add: grows_scheduleCallback grows_cancelCallback,
                simp add: grows_def queues_ok_def)

lemma grows_apply_calls: "grows s (apply_calls cs s)"
proof (induction cs arbitrary: s)
  case Nil
  show ?case by (simp add: grows_refl)
next
  case (Cons c cs)
  show ?case
    using grows_trans[OF grows_apply_call Cons.IH] by simp
qed

lemma peek_Some: "peek heap = Some x \<longleftrightarrow> heap \<noteq> [] \<and> hd heap = x"
  by (cases heap) (simp_all add: peek_def)

lemma peek_None: "peek heap = None \<longleftrightarrow> heap = []"
  by (cases heap) (simp_all add: peek_def)

lemma advanced_advanceTimers: "advanced s (advanceTimers currentTime s)"
proof (induction "length (timerQueue s)" arbitrary: s rule: less_induct)
  case less
  show ?case
  proof (cases "peek (timerQueue s)")
    case None
    then show ?thesis
      by (subst advanceTimers.simps) (simp add: advanced_def)
  next
    case (Some timer)
    then have ne: "timerQueue s \<noteq> []" and hd: "hd (timerQueue s) = timer"
      by (simp_all add: peek_Some)
    let ?popped = "snd (pop (tasks s) (timerQueue s))"
    have mp: "mset ?popped = mset (timerQueue s) - {#timer#}"
      using mset_pop[OF ne] hd by simp
    have tin: "timer \<in># mset (timerQueue s)"
      using ne hd by (metis hd_in_set set_mset_mset)
    have sub: "set ?popped \<subseteq> set (timerQueue s)"
      using mp by (metis in_diffD set_mset_mset subsetI)
    have len: "length ?popped < length (timerQueue s)"
      by (rule length_pop[OF ne])
    show ?thesis
    proof (cases "callback (tasks s timer) = None")
      case True
      let ?s1 = "s\<lparr>timerQueue := ?popped\<rparr>"
      have ih: "advanced ?s1 (advanceTimers currentTime ?s1)"
        using less[of ?s1] len by simp
      have eq: "advanceTimers currentTime s = advanceTimers currentTime ?s1"
        using Some True by (subst advanceTimers.simps) simp
      have "mset (taskQueue s) + mset ?popped \<subseteq># mset (taskQueue s) + mset (timerQueue s)"
        using mp by simp
      then show ?thesis
        using ih sub unfolding eq advanced_def
        by (auto intro: subset_mset.order_trans)
    next
      case False
      then obtain cbv where cbv: "callback (tasks s timer) = Some cbv"
        by auto
      show ?thesis
      proof (cases "startTime (tasks s timer) \<le> currentTime")
        case True
        let ?ts = "(tasks s)(timer := (tasks s timer)\<lparr>sortIndex := expirationTime (tasks s timer)\<rparr>)"
        let ?s3 = "s\<lparr>timerQueue := ?popped, tasks := ?ts,
                     taskQueue := push ?ts (taskQueue s) timer\<rparr>"
        have ih: "advanced ?s3 (advanceTimers currentTime ?s3)"
          using less[of ?s3] len by simp
        have eq: "advanceTimers currentTime s = advanceTimers currentTime ?s3"
          using Some cbv True by (subst advanceTimers.simps) (simp add: Let_def)
        have sum: "mset (taskQueue ?s3) + mset (timerQueue ?s3)
                     = mset (taskQueue s) + mset (timerQueue s)"
          using mp tin by (simp add: mset_push)
        have tq: "mset (taskQueue s) \<subseteq># mset (taskQueue ?s3)"
          by (simp add: mset_push)
        have cb: "callback (tasks ?s3 r) = callback (tasks s r)" for r
          by simp
        have fr: "tasks ?s3 r = tasks s r" if "r \<notin> set (timerQueue s)" for r
          using that tin by auto
        have sub3: "set (timerQueue ?s3) \<subseteq> set (timerQueue s)"
          using sub by simp
        have c3: "taskIdCounter ?s3 = taskIdCounter s" "invocations ?s3 = invocations s"
          by simp_all
        show ?thesis
          unfolding eq advanced_def
        proof (intro conjI allI impI)
          show "taskIdCounter (advanceTimers currentTime ?s3) = taskIdCounter s"
            using ih c3 by (simp add: advanced_def)
          show "invocations (advanceTimers currentTime ?s3) = invocations s"
            using ih c3 by (simp add: advanced_def)
          show "mset (taskQueue s) \<subseteq># mset (taskQueue (advanceTimers currentTime ?s3))"
            using ih tq unfolding advanced_def by (meson subset_mset.order_trans)
          show "mset (taskQueue (advanceTimers currentTime ?s3))
                  + mset (timerQueue (advanceTimers currentTime ?s3))
                \<subseteq># mset (taskQueue s) + mset (timerQueue s)"
            using ih sum unfolding advanced_def by metis
          show "callback (tasks (advanceTimers currentTime ?s3) r) = callback (tasks s r)" for r
            using ih cb[of r] unfolding advanced_def by metis
          show "tasks (advanceTimers currentTime ?s3) r = tasks s r"
            if "r \<notin> set (timerQueue s)" for r
          proof -
            from that sub3 have "r \<notin> set (timerQueue ?s3)" by blast
            with ih have "tasks (advanceTimers currentTime ?s3) r = tasks ?s3 r"
              unfolding advanced_def by blast
            with fr[OF that] show ?thesis by simp
          qed
        qed
      next
        case False
        then show ?thesis
          using Some cbv
          by (subst advanceTimers.simps) (simp add: advanced_def)
      qed
    qed
  qed
qed

subsection \<open>Timeouts and expiration times\<close>

text \<open>
  C5. For every priority level \<open>P\<close>, the task that \<open>unstable_scheduleCallback\<close> creates has
  \<open>expirationTime = startTime + timeout(P)\<close>, where the timeout is \<open>-1\<close> for Immediate,
  \<open>250\<close> for UserBlocking, \<open>5000\<close> for Normal, \<open>10000\<close> for Low and \<open>1073741823\<close> for Idle,
  a level that is none of the five gets the Normal timeout, and the five timeouts are
  strictly increasing in that order.
\<close>

theorem scheduleCallback_expirationTime:
  "(case unstable_scheduleCallback P cb opts s of
      (t, s') \<Rightarrow> expirationTime (tasks s' t) = startTime (tasks s' t) + timeout_of P)
   \<and> timeout_of ImmediatePriority = - 1
   \<and> timeout_of UserBlockingPriority = 250
   \<and> timeout_of NormalPriority = 5000
   \<and> timeout_of LowPriority = 10000
   \<and> timeout_of IdlePriority = 1073741823
   \<and> timeout_of (OtherPriority v) = timeout_of NormalPriority
   \<and> timeout_of ImmediatePriority < timeout_of UserBlockingPriority
   \<and> timeout_of UserBlockingPriority < timeout_of NormalPriority
   \<and> timeout_of NormalPriority < timeout_of LowPriority
   \<and> timeout_of LowPriority < timeout_of IdlePriority"
proof -
  have "case unstable_scheduleCallback P cb opts s of
      (t, s') \<Rightarrow> expirationTime (tasks s' t) = startTime (tasks s' t) + timeout_of P"
    by (simp add: unstable_scheduleCallback_def Let_def requestHostTimeout_def
          cancelHostTimeout_def requestHostCallback_def)
  then show ?thesis
    by (simp add: IMMEDIATE_PRIORITY_TIMEOUT_def USER_BLOCKING_PRIORITY_TIMEOUT_def
          NORMAL_PRIORITY_TIMEOUT_def LOW_PRIORITY_TIMEOUT_def IDLE_PRIORITY_TIMEOUT_def
          maxSigned31BitInt_def)
qed

theorem scheduleCallback_expirationTime_witness:
  "(case unstable_scheduleCallback UserBlockingPriority finish NoOptions
           (initial_scheduler\<lparr>now := 100\<rparr>) of
      (t, s') \<Rightarrow> startTime (tasks s' t) = 100 \<and> expirationTime (tasks s' t) = 350)"
  using scheduleCallback_expirationTime
          [where P = UserBlockingPriority and cb = finish and opts = NoOptions
             and s = "initial_scheduler\<lparr>now := 100\<rparr>"]
  by (simp add: unstable_scheduleCallback_def Let_def requestHostTimeout_def
        cancelHostTimeout_def requestHostCallback_def initial_scheduler_def
        getCurrentTime_def USER_BLOCKING_PRIORITY_TIMEOUT_def)

subsection \<open>Delayed and ready tasks\<close>

text \<open>
  C10. In \<open>unstable_scheduleCallback\<close>, options that are missing, a \<open>delay\<close> that is not a
  number and a \<open>delay\<close> that is at most \<open>0\<close> all give \<open>startTime = currentTime\<close>: the task
  is pushed onto the ready queue with \<open>sortIndex = expirationTime\<close> and the delayed queue
  is left alone. Only a numeric \<open>delay\<close> greater than \<open>0\<close> gives a delayed task: it is
  pushed onto the delayed queue with \<open>sortIndex = startTime = currentTime + delay\<close>, and
  the ready queue is left alone.
\<close>

theorem scheduleCallback_delay:
  "((opts = NoOptions \<or> opts = Options NotANumber
       \<or> (\<exists>d. d \<le> 0 \<and> opts = Options (NumberDelay d))) \<longrightarrow>
      (case unstable_scheduleCallback P cb opts s of
         (t, s') \<Rightarrow>
           startTime (tasks s' t) = getCurrentTime s
           \<and> mset (taskQueue s') = add_mset t (mset (taskQueue s))
           \<and> timerQueue s' = timerQueue s
           \<and> sortIndex (tasks s' t) = expirationTime (tasks s' t)))
   \<and> (\<forall>d. d > 0 \<and> opts = Options (NumberDelay d) \<longrightarrow>
      (case unstable_scheduleCallback P cb opts s of
         (t, s') \<Rightarrow>
           startTime (tasks s' t) = getCurrentTime s + d
           \<and> mset (timerQueue s') = add_mset t (mset (timerQueue s))
           \<and> taskQueue s' = taskQueue s
           \<and> sortIndex (tasks s' t) = startTime (tasks s' t)))"
proof (intro conjI impI allI)
  assume "opts = NoOptions \<or> opts = Options NotANumber
       \<or> (\<exists>d. d \<le> 0 \<and> opts = Options (NumberDelay d))"
  then have "startTime_of (getCurrentTime s) opts = getCurrentTime s"
    by auto
  then show "case unstable_scheduleCallback P cb opts s of
         (t, s') \<Rightarrow>
           startTime (tasks s' t) = getCurrentTime s
           \<and> mset (taskQueue s') = add_mset t (mset (taskQueue s))
           \<and> timerQueue s' = timerQueue s
           \<and> sortIndex (tasks s' t) = expirationTime (tasks s' t)"
    by (simp add: unstable_scheduleCallback_def Let_def requestHostCallback_def mset_push)
next
  fix d :: int
  assume "d > 0 \<and> opts = Options (NumberDelay d)"
  then have st: "startTime_of (getCurrentTime s) opts = getCurrentTime s + d" and "d > 0"
    by auto
  then show "case unstable_scheduleCallback P cb opts s of
         (t, s') \<Rightarrow>
           startTime (tasks s' t) = getCurrentTime s + d
           \<and> mset (timerQueue s') = add_mset t (mset (timerQueue s))
           \<and> taskQueue s' = taskQueue s
           \<and> sortIndex (tasks s' t) = startTime (tasks s' t)"
    by (simp add: unstable_scheduleCallback_def Let_def requestHostTimeout_def
          cancelHostTimeout_def mset_push)
qed

theorem scheduleCallback_delay_witness:
  "(case unstable_scheduleCallback NormalPriority finish (Options (NumberDelay 0))
           (initial_scheduler\<lparr>now := 100\<rparr>) of
      (t, s') \<Rightarrow>
        startTime (tasks s' t) = 100 \<and> mset (taskQueue s') = {#t#} \<and> timerQueue s' = []
        \<and> sortIndex (tasks s' t) = expirationTime (tasks s' t))
   \<and> (case unstable_scheduleCallback NormalPriority finish (Options (NumberDelay 30))
           (initial_scheduler\<lparr>now := 100\<rparr>) of
      (t, s') \<Rightarrow>
        startTime (tasks s' t) = 130 \<and> mset (timerQueue s') = {#t#} \<and> taskQueue s' = []
        \<and> sortIndex (tasks s' t) = 130)"
  using scheduleCallback_delay
          [where opts = "Options (NumberDelay 0)" and P = NormalPriority and cb = finish
             and s = "initial_scheduler\<lparr>now := 100\<rparr>"]
        scheduleCallback_delay
          [where opts = "Options (NumberDelay 30)" and P = NormalPriority and cb = finish
             and s = "initial_scheduler\<lparr>now := 100\<rparr>"]
  by (simp add: initial_scheduler_def getCurrentTime_def split: prod.splits)

subsection \<open>The work loop: which task runs, and when the loop stops\<close>





lemma invocations_call_callback:
  "invocations (snd (call_callback t cb currentTime s))
     = invocations s @ [(t, expirationTime (tasks s t) \<le> currentTime)]"
  using grows_apply_calls
  by (simp add: call_callback_def Let_def grows_def)

lemma workLoop_turn_invokes:
  assumes "callback (tasks s t) = Some cb"
    and "\<not> (expirationTime (tasks s t) > currentTime \<and> (\<not> h \<or> shouldYieldToHost s))"
  shows "invocations (snd (snd (workLoop_turn h currentTime t s)))
           = invocations s @ [(t, expirationTime (tasks s t) \<le> currentTime)]
         \<and> fst (workLoop_turn h currentTime t s) \<noteq> Break"
proof -
  obtain out s2 where cc: "call_callback t cb currentTime s = (out, s2)"
    by (cases "call_callback t cb currentTime s")
  have i2: "invocations s2 = invocations s @ [(t, expirationTime (tasks s t) \<le> currentTime)]"
    using invocations_call_callback[of t cb currentTime s] cc by simp
  have adv: "invocations (advanceTimers ct' x) = invocations x" for ct' x
    using advanced_advanceTimers[of x ct'] by (simp add: advanced_def)
  show ?thesis
    using assms cc i2
    by (cases out) (auto simp: workLoop_turn_def Let_def adv)
qed

lemma push_empty: "push ts [] x = [x]"
  by (simp add: push_def siftUp.simps)

lemma pop_single: "pop ts [x] = (Some x, [])"
  by (simp add: pop_def)

lemma one_ready_eq:
  "one_ready level cb =
     initial_scheduler
       \<lparr>tasks := (\<lambda>r. blank_task)(1 :=
           \<lparr>id' = 1, callback = Some cb, priorityLevel = level, startTime = 0,
            expirationTime = timeout_of level, sortIndex = timeout_of level\<rparr>),
        taskQueue := [1], taskIdCounter := 2, currentTask := Some 1,
        isHostCallbackScheduled := True, scheduledHostCallback := True,
        isMessageLoopRunning := True\<rparr>"
  by (simp add: one_ready_def unstable_scheduleCallback_def Let_def initial_scheduler_def
        getCurrentTime_def requestHostCallback_def push_empty peek_def)









text \<open>
  Every step of the module keeps \<open>heaps_ok\<close>: a task object is written only while it is
  in no array (when it is created, and when \<open>advanceTimers\<close> moves it), or in a field the
  order does not read (\<open>callback\<close>).
\<close>

lemma pop_removes_first:
  assumes "distinct heap" and "peek heap = Some t"
  shows "t \<notin> set (snd (pop ts heap))"
proof -
  have ne: "heap \<noteq> []" and hd: "hd heap = t"
    using assms(2) by (simp_all add: peek_Some)
  have "count (mset heap) t = 1"
    using assms(1) ne hd by (metis distinct_count_atmost_1 hd_in_set)
  then have "count (mset (snd (pop ts heap))) t = 0"
    using mset_pop[OF ne, of ts] hd by simp
  then show ?thesis
    by (metis count_mset_0_iff)
qed



















lemma reachable_workLoop_while:
  assumes "workLoop_while h currentTime s = Some r" and "reachable s"
  shows "reachable (snd (snd r))"
proof -
  have "reachable s \<longrightarrow> reachable (snd (snd r))"
  proof (rule workLoop_while.raw_induct
           [where P = "\<lambda>h ct s r. reachable s \<longrightarrow> reachable (snd (snd r))", OF _ assms(1)])
    fix loop :: "bool \<Rightarrow> int \<Rightarrow> scheduler \<Rightarrow> (bool \<times> int \<times> scheduler) option"
      and h ct s r
    assume IH: "\<And>h ct s r. loop h ct s = Some r \<Longrightarrow> reachable s \<longrightarrow> reachable (snd (snd r))"
      and body: "(case currentTask s of
                    None \<Rightarrow> Some (False, ct, s)
                  | Some t \<Rightarrow>
                      if enableSchedulerDebugging s \<and> isSchedulerPaused s then Some (False, ct, s)
                      else let turn = workLoop_turn h ct t s
                           in if fst turn = Next
                              then loop h (fst (snd turn)) (snd (snd turn))
                              else Some (fst turn = Raised, snd turn)) = Some r"
    show "reachable s \<longrightarrow> reachable (snd (snd r))"
    proof
      assume rs: "reachable s"
      show "reachable (snd (snd r))"
      proof (cases "currentTask s")
        case None
        then show ?thesis using body rs by auto
      next
        case (Some t)
        show ?thesis
        proof (cases "enableSchedulerDebugging s \<and> isSchedulerPaused s")
          case True
          then show ?thesis using body Some rs by auto
        next
          case False
          let ?turn = "workLoop_turn h ct t s"
          have rt: "reachable (snd (snd ?turn))"
            using rs Some by (rule reachable.turn)
          show ?thesis
          proof (cases "fst ?turn = Next")
            case True
            then have "loop h (fst (snd ?turn)) (snd (snd ?turn)) = Some r"
              using body Some False by (auto simp: Let_def)
            then show ?thesis using IH rt by blast
          next
            case nn: False
            then have "r = (fst ?turn = Raised, snd ?turn)"
              using body Some False by (auto simp: Let_def)
            then show ?thesis using rt by simp
          qed
        qed
      qed
    qed
  qed
  then show ?thesis using assms(2) by simp
qed

lemma reachable_workLoop:
  assumes "workLoop h initialTime s = Some (r, s')" and "reachable s"
  shows "reachable s'"
proof -
  let ?s1 = "advanceTimers initialTime s"
  let ?s2 = "?s1\<lparr>currentTask := peek (taskQueue ?s1)\<rparr>"
  have r2: "reachable ?s2"
    by (rule reachable.other[OF reachable.timers[OF assms(2), of initialTime]]) simp_all
  obtain threw ct' s3 where w: "workLoop_while h initialTime ?s2 = Some (threw, ct', s3)"
    using assms(1) by (auto simp: workLoop_def Let_def split: option.splits)
  have r3: "reachable s3"
    using reachable_workLoop_while[OF w r2] by simp
  have "s' = s3 \<or> (\<exists>ms. s' = requestHostTimeout ms s3)"
    using assms(1) w by (auto simp: workLoop_def Let_def split: option.splits if_splits)
  then show ?thesis
  proof
    assume "s' = s3"
    then show ?thesis using r3 by simp
  next
    assume "\<exists>ms. s' = requestHostTimeout ms s3"
    then obtain ms where "s' = requestHostTimeout ms s3" by blast
    then show ?thesis
      using reachable.other[OF r3, of s'] by (simp add: requestHostTimeout_def)
  qed
qed

lemma reachable_flushWork:
  assumes "flushWork h initialTime s = Some (r, s')" and "reachable s"
  shows "reachable s'"
proof -
  define s3 where "s3 =
    (if isHostTimeoutScheduled (s\<lparr>isHostCallbackScheduled := False\<rparr>)
     then cancelHostTimeout (s\<lparr>isHostCallbackScheduled := False, isHostTimeoutScheduled := False\<rparr>)
     else s\<lparr>isHostCallbackScheduled := False\<rparr>)\<lparr>isPerformingWork := True\<rparr>"
  have r3: "reachable s3"
    by (rule reachable.other[OF assms(2)]) (simp_all add: s3_def cancelHostTimeout_def)
  obtain s4 where w: "workLoop h initialTime s3 = Some (r, s4)"
    and e: "s' = s4\<lparr>currentTask := None, currentPriorityLevel := currentPriorityLevel s3,
                     isPerformingWork := False\<rparr>"
    using assms(1) by (auto simp: flushWork_def Let_def s3_def split: option.splits)
  have "reachable s4"
    using w r3 by (rule reachable_workLoop)
  then show ?thesis
    by (rule reachable.other) (simp_all add: e)
qed





subsection \<open>The work loop: what a callback's return value does\<close>

lemma call_callback_frame:
  assumes ok: "queues_ok s" and tin: "t \<in> set (taskQueue s)"
  shows "queues_ok (snd (call_callback t cb currentTime s))
       \<and> t \<in> set (taskQueue (snd (call_callback t cb currentTime s)))
       \<and> t \<notin> set (timerQueue (snd (call_callback t cb currentTime s)))
       \<and> sortIndex (tasks (snd (call_callback t cb currentTime s)) t) = sortIndex (tasks s t)
       \<and> callback (tasks (snd (call_callback t cb currentTime s)) t) = None"
proof -
  let ?d = "expirationTime (tasks s t) \<le> currentTime"
  let ?s1 = "s\<lparr>tasks := (tasks s)(t := (tasks s t)\<lparr>callback := None\<rparr>),
               currentPriorityLevel := priorityLevel (tasks s t),
               invocations := invocations s @ [(t, ?d)]\<rparr>"
  let ?s2 = "apply_calls (fst (invoke cb ?d)) ?s1"
  have eq: "snd (call_callback t cb currentTime s) = ?s2"
    by (simp add: call_callback_def Let_def)
  have g: "grows ?s1 ?s2"
    by (rule grows_apply_calls)
  have ok1: "queues_ok ?s1"
    using ok by (simp add: queues_ok_def)
  have lt: "t < taskIdCounter ?s1"
    using ok tin by (auto simp: queues_ok_def list_all_iff)
  have nt: "t \<notin> set (timerQueue ?s1)"
    using ok tin by (auto simp: queues_ok_def)
  have a: "queues_ok ?s2"
    using g ok1 by (simp add: grows_def)
  have b: "t \<in> set (taskQueue ?s2)"
  proof -
    have "mset (taskQueue ?s1) \<subseteq># mset (taskQueue ?s2)"
      using g by (simp add: grows_def)
    then have "set (taskQueue ?s1) \<subseteq> set (taskQueue ?s2)"
      by (metis set_mset_mono set_mset_mset)
    then show ?thesis using tin by auto
  qed
  have rest: "(t \<in> set (timerQueue ?s2) \<longrightarrow> t \<in> set (timerQueue ?s1))
             \<and> sortIndex (tasks ?s2 t) = sortIndex (tasks ?s1 t)
             \<and> (callback (tasks ?s1 t) = None \<longrightarrow> callback (tasks ?s2 t) = None)"
    using g lt unfolding grows_def by blast
  show ?thesis
    unfolding eq using a b rest nt by simp
qed

lemma advanceTimers_keeps:
  "invocations (advanceTimers ct s) = invocations s"
  "callback (tasks (advanceTimers ct s) r) = callback (tasks s r)"
  "r \<notin> set (timerQueue s) \<Longrightarrow> tasks (advanceTimers ct s) r = tasks s r"
  "set (taskQueue s) \<subseteq> set (taskQueue (advanceTimers ct s))"
  "set (taskQueue (advanceTimers ct s)) \<subseteq> set (taskQueue s) \<union> set (timerQueue s)"
proof -
  have a: "advanced s (advanceTimers ct s)"
    by (rule advanced_advanceTimers)
  show "invocations (advanceTimers ct s) = invocations s"
    and "callback (tasks (advanceTimers ct s) r) = callback (tasks s r)"
    using a by (simp_all add: advanced_def)
  show "r \<notin> set (timerQueue s) \<Longrightarrow> tasks (advanceTimers ct s) r = tasks s r"
    using a by (simp add: advanced_def)
  have "mset (taskQueue s) \<subseteq># mset (taskQueue (advanceTimers ct s))"
    using a by (simp add: advanced_def)
  then show "set (taskQueue s) \<subseteq> set (taskQueue (advanceTimers ct s))"
    by (metis set_mset_mono set_mset_mset)
  have "mset (taskQueue (advanceTimers ct s)) + mset (timerQueue (advanceTimers ct s))
          \<subseteq># mset (taskQueue s) + mset (timerQueue s)"
    using a by (simp add: advanced_def)
  then have "set_mset (mset (taskQueue (advanceTimers ct s))
                + mset (timerQueue (advanceTimers ct s)))
          \<subseteq> set_mset (mset (taskQueue s) + mset (timerQueue s))"
    by (rule set_mset_mono)
  then show "set (taskQueue (advanceTimers ct s)) \<subseteq> set (taskQueue s) \<union> set (timerQueue s)"
    by auto
qed

lemma workLoop_turn_function:
  assumes "callback (tasks s t) = Some cb"
    and "\<not> (expirationTime (tasks s t) > currentTime \<and> (\<not> h \<or> shouldYieldToHost s))"
    and "fst (call_callback t cb currentTime s) = ReturnsFunction k"
  shows "workLoop_turn h currentTime t s =
     (let s2 = snd (call_callback t cb currentTime s);
          s4 = advanceTimers (getCurrentTime s2)
                 (s2\<lparr>tasks := (tasks s2)(t := (tasks s2 t)\<lparr>callback := Some k\<rparr>)\<rparr>)
      in (Next, getCurrentTime s2, s4\<lparr>currentTask := peek (taskQueue s4)\<rparr>))"
  using assms
  by (cases "call_callback t cb currentTime s") (auto simp: workLoop_turn_def Let_def)

lemma workLoop_turn_other:
  assumes "callback (tasks s t) = Some cb"
    and "\<not> (expirationTime (tasks s t) > currentTime \<and> (\<not> h \<or> shouldYieldToHost s))"
    and "fst (call_callback t cb currentTime s) = ReturnsOther"
  shows "workLoop_turn h currentTime t s =
     (let s2 = snd (call_callback t cb currentTime s);
          s3 = (if Some t = peek (taskQueue s2)
                then s2\<lparr>taskQueue := snd (pop (tasks s2) (taskQueue s2))\<rparr> else s2);
          s4 = advanceTimers (getCurrentTime s2) s3
      in (Next, getCurrentTime s2, s4\<lparr>currentTask := peek (taskQueue s4)\<rparr>))"
  using assms
  by (cases "call_callback t cb currentTime s") (auto simp: workLoop_turn_def Let_def)

lemma workLoop_turn_completed:
  assumes ok: "queues_ok s" and tin: "t \<in> set (taskQueue s)"
    and cb: "callback (tasks s t) = Some cb"
    and nb: "\<not> (expirationTime (tasks s t) > currentTime \<and> (\<not> h \<or> shouldYieldToHost s))"
    and out: "fst (call_callback t cb currentTime s) = ReturnsOther"
  shows "callback (tasks (snd (snd (workLoop_turn h currentTime t s))) t) = None
       \<and> (t \<in> set (taskQueue (snd (snd (workLoop_turn h currentTime t s))))
            \<longleftrightarrow> peek (taskQueue (snd (call_callback t cb currentTime s))) \<noteq> Some t)"
proof -
  let ?s2 = "snd (call_callback t cb currentTime s)"
  let ?s3 = "if Some t = peek (taskQueue ?s2)
             then ?s2\<lparr>taskQueue := snd (pop (tasks ?s2) (taskQueue ?s2))\<rparr> else ?s2"
  let ?s4 = "advanceTimers (getCurrentTime ?s2) ?s3"
  have f: "queues_ok ?s2" "t \<in> set (taskQueue ?s2)" "t \<notin> set (timerQueue ?s2)"
      "callback (tasks ?s2 t) = None"
    using call_callback_frame[OF ok tin, of cb currentTime] by simp_all
  have eq: "snd (snd (workLoop_turn h currentTime t s)) = ?s4\<lparr>currentTask := peek (taskQueue ?s4)\<rparr>"
    by (simp add: workLoop_turn_other[OF cb nb out] Let_def)
  have c3: "callback (tasks ?s3 t) = None" "timerQueue ?s3 = timerQueue ?s2"
    using f(4) by simp_all
  have 1: "callback (tasks ?s4 t) = None"
    using c3 by (simp add: advanceTimers_keeps(2))
  have 2: "t \<in> set (taskQueue ?s4) \<longleftrightarrow> peek (taskQueue ?s2) \<noteq> Some t"
  proof (cases "peek (taskQueue ?s2) = Some t")
    case True
    have "distinct (taskQueue ?s2)"
      using f(1) by (simp add: queues_ok_def)
    then have "t \<notin> set (snd (pop (tasks ?s2) (taskQueue ?s2)))"
      using True by (rule pop_removes_first)
    then have "t \<notin> set (taskQueue ?s3) \<union> set (timerQueue ?s3)"
      using True f(3) by simp
    then have "t \<notin> set (taskQueue ?s4)"
      using advanceTimers_keeps(5)[of "getCurrentTime ?s2" ?s3] by blast
    then show ?thesis using True by simp
  next
    case False
    then have "t \<in> set (taskQueue ?s3)"
      using f(2) by auto
    then have "t \<in> set (taskQueue ?s4)"
      using advanceTimers_keeps(4)[of ?s3 "getCurrentTime ?s2"] by blast
    then show ?thesis using False by simp
  qed
  show ?thesis
    unfolding eq using 1 2 by simp
qed

lemma workLoop_turn_continued:
  assumes ok: "queues_ok s" and tin: "t \<in> set (taskQueue s)"
    and cb: "callback (tasks s t) = Some cb"
    and nb: "\<not> (expirationTime (tasks s t) > currentTime \<and> (\<not> h \<or> shouldYieldToHost s))"
    and out: "fst (call_callback t cb currentTime s) = ReturnsFunction k"
  shows "callback (tasks (snd (snd (workLoop_turn h currentTime t s))) t) = Some k
       \<and> t \<in> set (taskQueue (snd (snd (workLoop_turn h currentTime t s))))
       \<and> sortIndex (tasks (snd (snd (workLoop_turn h currentTime t s))) t)
           = sortIndex (tasks s t)"
proof -
  let ?s2 = "snd (call_callback t cb currentTime s)"
  let ?s3 = "?s2\<lparr>tasks := (tasks ?s2)(t := (tasks ?s2 t)\<lparr>callback := Some k\<rparr>)\<rparr>"
  let ?s4 = "advanceTimers (getCurrentTime ?s2) ?s3"
  have f: "t \<in> set (taskQueue ?s2)" "t \<notin> set (timerQueue ?s2)"
      "sortIndex (tasks ?s2 t) = sortIndex (tasks s t)"
    using call_callback_frame[OF ok tin, of cb currentTime] by simp_all
  have eq: "snd (snd (workLoop_turn h currentTime t s)) = ?s4\<lparr>currentTask := peek (taskQueue ?s4)\<rparr>"
    by (simp add: workLoop_turn_function[OF cb nb out] Let_def)
  have 1: "callback (tasks ?s4 t) = Some k"
    by (simp add: advanceTimers_keeps(2))
  have "t \<in> set (taskQueue ?s3)"
    using f(1) by simp
  then have 2: "t \<in> set (taskQueue ?s4)"
    using advanceTimers_keeps(4)[of ?s3 "getCurrentTime ?s2"] by blast
  have "t \<notin> set (timerQueue ?s3)"
    using f(2) by simp
  then have "tasks ?s4 t = tasks ?s3 t"
    by (rule advanceTimers_keeps(3))
  then have 3: "sortIndex (tasks ?s4 t) = sortIndex (tasks s t)"
    using f(3) by simp
  show ?thesis
    unfolding eq using 1 2 3 by simp
qed

lemma call_spawn:
  "taskQueue (snd (call_callback 1 spawn 0 (in_slice (one_ready NormalPriority spawn)))) = [2, 1]"
  by (simp add: call_callback_def Let_def spawn_def one_ready_eq in_slice_def
        initial_scheduler_def unstable_scheduleCallback_def getCurrentTime_def
        push_def siftUp.simps compare_def peek_def
        NORMAL_PRIORITY_TIMEOUT_def IMMEDIATE_PRIORITY_TIMEOUT_def)

lemma in_slice_one_ready:
  "queues_ok (in_slice (one_ready level cb))"
  "1 \<in> set (taskQueue (in_slice (one_ready level cb)))"
  "peek (taskQueue (in_slice (one_ready level cb))) = Some 1"
  "callback (tasks (in_slice (one_ready level cb)) 1) = Some cb"
  "expirationTime (tasks (in_slice (one_ready level cb)) 1) = timeout_of level"
  "\<not> shouldYieldToHost (in_slice (one_ready level cb))"
  "invocations (in_slice (one_ready level cb)) = []"
  by (simp_all add: one_ready_eq in_slice_def initial_scheduler_def queues_ok_def peek_def
        shouldYieldToHost_def getCurrentTime_def)

text \<open>
  C4, as the spec states it: every callback the work loop executes is called with the
  boolean \<open>expirationTime \<le> currentTime\<close>; if it returns a function, that function
  becomes the task's callback and the task is not popped (its \<open>sortIndex\<close> is unchanged);
  if it returns anything else, the task is popped from the ready queue.

  The last part fails: the loop pops only when the task is still the first item of the
  ready queue (\<open>if (currentTask === peek(taskQueue))\<close>). Here task 1 (Normal) schedules an
  Immediate task and returns no function; the new task 2 is now first, and task 1 stays
  in the queue.
\<close>

theorem workLoop_turn_callback_counterexample:
  "callback (tasks (in_slice (one_ready NormalPriority spawn)) 1) = Some spawn
   \<and> peek (taskQueue (in_slice (one_ready NormalPriority spawn))) = Some 1
   \<and> snd (invoke spawn False) = ReturnsOther
   \<and> fst (workLoop_turn True 0 1 (in_slice (one_ready NormalPriority spawn))) = Next
   \<and> invocations (snd (snd (workLoop_turn True 0 1 (in_slice (one_ready NormalPriority spawn)))))
       = [(1, False)]
   \<and> taskQueue (snd (snd (workLoop_turn True 0 1 (in_slice (one_ready NormalPriority spawn)))))
       = [2, 1]"
proof -
  let ?s = "in_slice (one_ready NormalPriority spawn)"
  have cb: "callback (tasks ?s 1) = Some spawn"
    by (rule in_slice_one_ready)
  have nb: "\<not> (expirationTime (tasks ?s 1) > 0 \<and> (\<not> True \<or> shouldYieldToHost ?s))"
    by (simp del: One_nat_def add: in_slice_one_ready)
  have out: "fst (call_callback 1 spawn 0 ?s) = ReturnsOther"
    by (simp add: call_callback_def Let_def spawn_def)
  have tm: "timerQueue (snd (call_callback 1 spawn 0 ?s)) = []"
    by (simp add: call_callback_def Let_def spawn_def one_ready_eq in_slice_def
        initial_scheduler_def unstable_scheduleCallback_def getCurrentTime_def)
  have turn: "workLoop_turn True 0 1 ?s =
     (Next, getCurrentTime (snd (call_callback 1 spawn 0 ?s)),
      (snd (call_callback 1 spawn 0 ?s))\<lparr>currentTask := Some 2\<rparr>)"
    unfolding workLoop_turn_other[OF cb nb out]
    by (simp del: One_nat_def add: Let_def call_spawn peek_def tm advanceTimers.simps)
  have inv: "invocations (snd (snd (workLoop_turn True 0 1 ?s))) = [(1, False)]"
    using workLoop_turn_invokes[OF cb nb]
    by (simp del: One_nat_def add: in_slice_one_ready NORMAL_PRIORITY_TIMEOUT_def)
  have 3: "snd (invoke spawn False) = ReturnsOther"
    by (simp add: spawn_def)
  have 4: "fst (workLoop_turn True 0 1 ?s) = Next"
    by (simp only: turn fst_conv)
  have 6: "taskQueue (snd (snd (workLoop_turn True 0 1 ?s))) = [2, 1]"
    unfolding turn by (simp del: One_nat_def add: call_spawn)
  show ?thesis
    using cb in_slice_one_ready(3)[of NormalPriority spawn] 3 4 inv 6 by blast
qed

text \<open>
  C4, amended: every callback the work loop executes is called once with the boolean
  \<open>expirationTime \<le> currentTime\<close>. If it returns a function, that function becomes the
  task's callback, the task stays in the ready queue and its \<open>sortIndex\<close> is unchanged. If
  it returns anything else, the task's callback stays null, and the task is popped exactly
  when it is still the first item of the ready queue at the moment the callback returns;
  otherwise it stays in the queue.
\<close>

theorem workLoop_turn_callback:
  assumes "queues_ok s" and "t \<in> set (taskQueue s)"
    and "callback (tasks s t) = Some cb"
    and "\<not> (expirationTime (tasks s t) > currentTime \<and> (\<not> h \<or> shouldYieldToHost s))"
  shows "invocations (snd (snd (workLoop_turn h currentTime t s)))
           = invocations s @ [(t, expirationTime (tasks s t) \<le> currentTime)]
       \<and> fst (call_callback t cb currentTime s)
           = snd (invoke cb (expirationTime (tasks s t) \<le> currentTime))
       \<and> (\<forall>k. fst (call_callback t cb currentTime s) = ReturnsFunction k \<longrightarrow>
             callback (tasks (snd (snd (workLoop_turn h currentTime t s))) t) = Some k
             \<and> t \<in> set (taskQueue (snd (snd (workLoop_turn h currentTime t s))))
             \<and> sortIndex (tasks (snd (snd (workLoop_turn h currentTime t s))) t)
                 = sortIndex (tasks s t))
       \<and> (fst (call_callback t cb currentTime s) = ReturnsOther \<longrightarrow>
             callback (tasks (snd (snd (workLoop_turn h currentTime t s))) t) = None
             \<and> (t \<in> set (taskQueue (snd (snd (workLoop_turn h currentTime t s))))
                  \<longleftrightarrow> peek (taskQueue (snd (call_callback t cb currentTime s))) \<noteq> Some t))"
proof (intro conjI allI impI)
  show "invocations (snd (snd (workLoop_turn h currentTime t s)))
           = invocations s @ [(t, expirationTime (tasks s t) \<le> currentTime)]"
    using workLoop_turn_invokes[OF assms(3,4)] by simp
  show "fst (call_callback t cb currentTime s)
           = snd (invoke cb (expirationTime (tasks s t) \<le> currentTime))"
    by (simp add: call_callback_def Let_def)
next
  fix k
  assume k: "fst (call_callback t cb currentTime s) = ReturnsFunction k"
  show "callback (tasks (snd (snd (workLoop_turn h currentTime t s))) t) = Some k"
    and "t \<in> set (taskQueue (snd (snd (workLoop_turn h currentTime t s))))"
    and "sortIndex (tasks (snd (snd (workLoop_turn h currentTime t s))) t)
           = sortIndex (tasks s t)"
    using workLoop_turn_continued[OF assms k] by simp_all
next
  assume o: "fst (call_callback t cb currentTime s) = ReturnsOther"
  show "callback (tasks (snd (snd (workLoop_turn h currentTime t s))) t) = None"
    and "t \<in> set (taskQueue (snd (snd (workLoop_turn h currentTime t s))))
           \<longleftrightarrow> peek (taskQueue (snd (call_callback t cb currentTime s))) \<noteq> Some t"
    using workLoop_turn_completed[OF assms o] by simp_all
qed

theorem workLoop_turn_callback_witness:
  "callback (tasks (snd (snd (workLoop_turn True 0 1 (in_slice (one_ready NormalPriority again))))) 1)
     = Some finish
   \<and> 1 \<in> set (taskQueue (snd (snd (workLoop_turn True 0 1
                 (in_slice (one_ready NormalPriority again))))))
   \<and> invocations (snd (snd (workLoop_turn True 0 1 (in_slice (one_ready NormalPriority again)))))
       = [(1, False)]
   \<and> 1 \<notin> set (taskQueue (snd (snd (workLoop_turn True 0 1
                 (in_slice (one_ready NormalPriority finish))))))
   \<and> 1 \<in> set (taskQueue (snd (snd (workLoop_turn True 0 1
                 (in_slice (one_ready NormalPriority spawn))))))
   \<and> callback (tasks (snd (snd (workLoop_turn True 0 1
                 (in_slice (one_ready NormalPriority spawn))))) 1) = None"
proof -
  have nb: "\<not> (expirationTime (tasks (in_slice (one_ready NormalPriority cb)) 1) > 0
              \<and> (\<not> True \<or> shouldYieldToHost (in_slice (one_ready NormalPriority cb))))" for cb
    by (simp del: One_nat_def add: in_slice_one_ready)
  note A = workLoop_turn_callback
             [OF in_slice_one_ready(1) in_slice_one_ready(2) in_slice_one_ready(4) nb,
              of again]
  note F = workLoop_turn_callback
             [OF in_slice_one_ready(1) in_slice_one_ready(2) in_slice_one_ready(4) nb,
              of finish]
  note S = workLoop_turn_callback
             [OF in_slice_one_ready(1) in_slice_one_ready(2) in_slice_one_ready(4) nb,
              of spawn]
  have oa: "fst (call_callback 1 again 0 (in_slice (one_ready NormalPriority again)))
              = ReturnsFunction finish"
    by (simp add: call_callback_def Let_def again_def)
  have "(expirationTime (tasks (in_slice (one_ready NormalPriority again)) 1) \<le> 0) = False"
    by (simp del: One_nat_def add: in_slice_one_ready NORMAL_PRIORITY_TIMEOUT_def)
  then have ia: "invocations (snd (snd (workLoop_turn True 0 1
                    (in_slice (one_ready NormalPriority again))))) = [(1, False)]"
    using A by (simp del: One_nat_def add: in_slice_one_ready)
  have of_: "fst (call_callback 1 finish 0 (in_slice (one_ready NormalPriority finish)))
              = ReturnsOther"
    by (simp add: call_callback_def Let_def finish_def)
  have pf: "peek (taskQueue (snd (call_callback 1 finish 0
              (in_slice (one_ready NormalPriority finish))))) = Some 1"
    by (simp del: One_nat_def add: call_callback_def Let_def finish_def in_slice_one_ready)
  have os: "fst (call_callback 1 spawn 0 (in_slice (one_ready NormalPriority spawn)))
              = ReturnsOther"
    by (simp add: call_callback_def Let_def spawn_def)
  have ps: "peek (taskQueue (snd (call_callback 1 spawn 0
              (in_slice (one_ready NormalPriority spawn))))) \<noteq> Some 1"
    by (simp del: One_nat_def add: call_spawn peek_def)
  show ?thesis
    using A F S oa ia of_ pf os ps by blast
qed

subsection \<open>Cancelling\<close>

lemma cancel_null: "callback (tasks s t) = None \<Longrightarrow> unstable_cancelCallback t s = s"
proof -
  assume "callback (tasks s t) = None"
  then have "(tasks s t)\<lparr>callback := None\<rparr> = tasks s t"
    by (cases "tasks s t") simp
  then show ?thesis
    by (simp add: unstable_cancelCallback_def)
qed

lemma workLoop_turn_cancelled:
  assumes "peek (taskQueue s) = Some t" and "callback (tasks s t) = None"
    and "\<not> (expirationTime (tasks s t) > currentTime \<and> (\<not> h \<or> shouldYieldToHost s))"
  shows "workLoop_turn h currentTime t s =
           (Next, currentTime,
            s\<lparr>taskQueue := snd (pop (tasks s) (taskQueue s)),
              currentTask := peek (snd (pop (tasks s) (taskQueue s)))\<rparr>)"
  using assms by (auto simp: workLoop_turn_def Let_def)

lemma cancelled_one_facts:
  "peek (taskQueue cancelled_one) = Some 1"
  "callback (tasks cancelled_one 1) = None"
  "\<not> shouldYieldToHost cancelled_one"
  "invocations cancelled_one = []"
  "taskQueue cancelled_one = [1]"
  "timerQueue cancelled_one = []"
  "currentTask cancelled_one = Some 1"
  "\<not> enableSchedulerDebugging cancelled_one"
  by (simp_all add: cancelled_one_def unstable_cancelCallback_def one_ready_eq in_slice_def
        initial_scheduler_def peek_def shouldYieldToHost_def getCurrentTime_def)

lemma workLoop_cancelled_one:
  "map_option (\<lambda>(r, s'). (r, invocations s', taskQueue s')) (workLoop True 0 cancelled_one)
     = Some (Returned False, [], [])"
proof -
  have nb: "\<not> (expirationTime (tasks cancelled_one 1) > 0
              \<and> (\<not> True \<or> shouldYieldToHost cancelled_one))"
    by (simp add: cancelled_one_facts)
  have adv: "advanceTimers 0 cancelled_one = cancelled_one"
    by (subst advanceTimers.simps) (simp add: cancelled_one_facts peek_def)
  let ?s1 = "cancelled_one\<lparr>taskQueue := [], currentTask := None\<rparr>"
  have turn: "workLoop_turn True 0 1 cancelled_one = (Next, 0, ?s1)"
    unfolding workLoop_turn_cancelled[OF cancelled_one_facts(1,2) nb]
    by (simp del: One_nat_def add: cancelled_one_facts pop_single peek_def)
  have w1: "workLoop_while True 0 ?s1 = Some (False, 0, ?s1)"
    by (subst workLoop_while.simps) simp
  have w0: "workLoop_while True 0 cancelled_one = Some (False, 0, ?s1)"
    by (subst workLoop_while.simps)
       (simp del: One_nat_def add: cancelled_one_facts turn w1 Let_def)
  have cur: "cancelled_one\<lparr>currentTask := peek (taskQueue cancelled_one)\<rparr> = cancelled_one"
  proof -
    have "cancelled_one\<lparr>currentTask := currentTask cancelled_one\<rparr> = cancelled_one"
      by simp
    then show ?thesis
      by (simp only: cancelled_one_facts(1) cancelled_one_facts(7))
  qed
  have "workLoop True 0 cancelled_one = Some (Returned False, ?s1)"
    unfolding workLoop_def Let_def adv cur w0
    by (simp add: cancelled_one_facts peek_def)
  then show ?thesis
    by (simp add: cancelled_one_facts)
qed

text \<open>
  C6. \<open>unstable_cancelCallback(task)\<close> sets \<open>task.callback\<close> to null and changes nothing
  else: both heaps, every other task object, the other fields of the task and every
  module variable are as before. A task that has completed or has been popped has a null
  callback already, so cancelling it changes nothing at all. When the work loop comes to a
  first ready task whose callback is null (and does not leave the loop at its yield
  test), it pops the task and calls nothing.
\<close>

theorem cancelCallback_nulls_callback:
  "taskQueue (unstable_cancelCallback t s) = taskQueue s
   \<and> timerQueue (unstable_cancelCallback t s) = timerQueue s
   \<and> tasks (unstable_cancelCallback t s) = (tasks s)(t := (tasks s t)\<lparr>callback := None\<rparr>)
   \<and> (unstable_cancelCallback t s)\<lparr>tasks := tasks s\<rparr> = s
   \<and> (callback (tasks s t) = None \<longrightarrow> unstable_cancelCallback t s = s)
   \<and> (queues_ok s \<and> t \<in> set (taskQueue s) \<and> callback (tasks s t) = Some cb
        \<and> \<not> (expirationTime (tasks s t) > currentTime \<and> (\<not> h \<or> shouldYieldToHost s))
        \<and> snd (invoke cb (expirationTime (tasks s t) \<le> currentTime)) = ReturnsOther \<longrightarrow>
          unstable_cancelCallback t (snd (snd (workLoop_turn h currentTime t s)))
            = snd (snd (workLoop_turn h currentTime t s)))
   \<and> (peek (taskQueue s) = Some t \<and> callback (tasks s t) = None
        \<and> \<not> (expirationTime (tasks s t) > currentTime \<and> (\<not> h \<or> shouldYieldToHost s)) \<longrightarrow>
          fst (workLoop_turn h currentTime t s) = Next
          \<and> invocations (snd (snd (workLoop_turn h currentTime t s))) = invocations s
          \<and> mset (taskQueue (snd (snd (workLoop_turn h currentTime t s))))
              = mset (taskQueue s) - {#t#}
          \<and> unstable_cancelCallback t (snd (snd (workLoop_turn h currentTime t s)))
              = snd (snd (workLoop_turn h currentTime t s)))"
proof (intro conjI impI)
  show "taskQueue (unstable_cancelCallback t s) = taskQueue s"
    and "timerQueue (unstable_cancelCallback t s) = timerQueue s"
    and "tasks (unstable_cancelCallback t s) = (tasks s)(t := (tasks s t)\<lparr>callback := None\<rparr>)"
    and "(unstable_cancelCallback t s)\<lparr>tasks := tasks s\<rparr> = s"
    by (simp_all add: unstable_cancelCallback_def)
next
  assume "callback (tasks s t) = None"
  then show "unstable_cancelCallback t s = s"
    by (rule cancel_null)
next
  assume a: "queues_ok s \<and> t \<in> set (taskQueue s) \<and> callback (tasks s t) = Some cb
        \<and> \<not> (expirationTime (tasks s t) > currentTime \<and> (\<not> h \<or> shouldYieldToHost s))
        \<and> snd (invoke cb (expirationTime (tasks s t) \<le> currentTime)) = ReturnsOther"
  then have "fst (call_callback t cb currentTime s) = ReturnsOther"
    by (simp add: call_callback_def Let_def)
  with a have "callback (tasks (snd (snd (workLoop_turn h currentTime t s))) t) = None"
    using workLoop_turn_completed[of s t cb currentTime h] by blast
  then show "unstable_cancelCallback t (snd (snd (workLoop_turn h currentTime t s)))
            = snd (snd (workLoop_turn h currentTime t s))"
    by (rule cancel_null)
next
  assume a: "peek (taskQueue s) = Some t \<and> callback (tasks s t) = None
        \<and> \<not> (expirationTime (tasks s t) > currentTime \<and> (\<not> h \<or> shouldYieldToHost s))"
  then have turn: "workLoop_turn h currentTime t s =
           (Next, currentTime,
            s\<lparr>taskQueue := snd (pop (tasks s) (taskQueue s)),
              currentTask := peek (snd (pop (tasks s) (taskQueue s)))\<rparr>)"
    using workLoop_turn_cancelled[of s t currentTime h] by blast
  have ne: "taskQueue s \<noteq> []" and hd: "hd (taskQueue s) = t"
    using a by (simp_all add: peek_Some)
  show "fst (workLoop_turn h currentTime t s) = Next"
    and "invocations (snd (snd (workLoop_turn h currentTime t s))) = invocations s"
    by (simp_all add: turn)
  show "mset (taskQueue (snd (snd (workLoop_turn h currentTime t s))))
              = mset (taskQueue s) - {#t#}"
    using mset_pop[OF ne] hd by (simp add: turn)
  have "callback (tasks (snd (snd (workLoop_turn h currentTime t s))) t) = None"
    using a by (simp add: turn)
  then show "unstable_cancelCallback t (snd (snd (workLoop_turn h currentTime t s)))
              = snd (snd (workLoop_turn h currentTime t s))"
    by (rule cancel_null)
qed

theorem cancelCallback_nulls_callback_witness:
  "taskQueue cancelled_one = taskQueue (in_slice (one_ready NormalPriority finish))
   \<and> callback (tasks cancelled_one 1) = None
   \<and> unstable_cancelCallback 1 cancelled_one = cancelled_one
   \<and> invocations (snd (snd (workLoop_turn True 0 1 cancelled_one))) = []
   \<and> mset (taskQueue (snd (snd (workLoop_turn True 0 1 cancelled_one)))) = {#}
   \<and> unstable_cancelCallback 1
        (snd (snd (workLoop_turn True 0 1 (in_slice (one_ready NormalPriority finish)))))
       = snd (snd (workLoop_turn True 0 1 (in_slice (one_ready NormalPriority finish))))
   \<and> map_option (\<lambda>(r, s'). (r, invocations s', taskQueue s')) (workLoop True 0 cancelled_one)
       = Some (Returned False, [], [])"
proof -
  note T1 = cancelCallback_nulls_callback
              [where t = 1 and s = "in_slice (one_ready NormalPriority finish)" and cb = finish
                 and h = True and currentTime = 0]
  note T2 = cancelCallback_nulls_callback
              [where t = 1 and s = cancelled_one and cb = finish
                 and h = True and currentTime = 0]
  have nb1: "\<not> (expirationTime (tasks (in_slice (one_ready NormalPriority finish)) 1) > 0
              \<and> (\<not> True \<or> shouldYieldToHost (in_slice (one_ready NormalPriority finish))))"
    by (simp del: One_nat_def add: in_slice_one_ready)
  have nb2: "\<not> (expirationTime (tasks cancelled_one 1) > 0
              \<and> (\<not> True \<or> shouldYieldToHost cancelled_one))"
    by (simp add: cancelled_one_facts)
  have ro: "snd (invoke finish
               (expirationTime (tasks (in_slice (one_ready NormalPriority finish)) 1) \<le> 0))
             = ReturnsOther"
    by (simp add: finish_def)
  have e: "mset (taskQueue cancelled_one) - {#1#} = {#}"
    by (simp add: cancelled_one_facts)
  show ?thesis
    using T1 T2 nb1 nb2 ro e workLoop_cancelled_one
          in_slice_one_ready(1,2,4)[of NormalPriority finish] cancelled_one_facts(1,2,4)
    unfolding cancelled_one_def[symmetric]
    by (simp del: One_nat_def)
qed

section \<open>Properties of the child reconciler\<close>

subsection \<open>Placing a child\<close>

text \<open>
  C1. In tracking mode, \<open>placeChild(newFiber, lastPlacedIndex, newIndex)\<close> sets
  \<open>newFiber.index\<close> to \<open>newIndex\<close>. If \<open>newFiber.alternate\<close> is not null and its index is
  less than \<open>lastPlacedIndex\<close>, \<open>newFiber\<close> is flagged \<open>Placement\<close> and the call returns
  \<open>lastPlacedIndex\<close>; if it is not null and its index is at least \<open>lastPlacedIndex\<close>, no
  flag is set and the call returns that index; if it is null, \<open>newFiber\<close> is flagged
  \<open>Placement\<close> and the call returns \<open>lastPlacedIndex\<close>. The index of the alternate is the
  one it had before the call, and no other fiber changes.
\<close>

theorem placeChild_tracking:
  "(case placeChild True newFiber lastPlacedIndex newIndex st of
      (r, st') \<Rightarrow>
        index (fibers st' newFiber) = newIndex
        \<and> (\<forall>current. alternate (fibers st newFiber) = Some current
              \<and> index (fibers st' current) < lastPlacedIndex \<longrightarrow>
              flags (fibers st' newFiber) = Placement \<and> r = lastPlacedIndex)
        \<and> (\<forall>current. alternate (fibers st newFiber) = Some current
              \<and> index (fibers st' current) \<ge> lastPlacedIndex \<longrightarrow>
              flags (fibers st' newFiber) = flags (fibers st newFiber)
              \<and> r = index (fibers st' current))
        \<and> (alternate (fibers st newFiber) = None \<longrightarrow>
              flags (fibers st' newFiber) = Placement \<and> r = lastPlacedIndex)
        \<and> (\<forall>current. current \<noteq> newFiber \<longrightarrow>
              index (fibers st' current) = index (fibers st current))
        \<and> (\<forall>other. other \<noteq> newFiber \<longrightarrow> fibers st' other = fibers st other))"
  by (auto simp: placeChild_def upd_def Let_def split: option.splits)

theorem placeChild_tracking_witness:
  "fst (placeChild True 4 0 0 (snd (useFiber 3 old_abc))) = 2
   \<and> flags (fibers (snd (placeChild True 4 0 0 (snd (useFiber 3 old_abc)))) 4) = NoFlags
   \<and> fst (placeChild True 4 2 1 (snd (useFiber 1 old_abc))) = 2
   \<and> flags (fibers (snd (placeChild True 4 2 1 (snd (useFiber 1 old_abc)))) 4) = Placement
   \<and> index (fibers (snd (placeChild True 4 2 1 (snd (useFiber 1 old_abc)))) 4) = 1
   \<and> fst (placeChild True 1 2 5 old_abc) = 2
   \<and> flags (fibers (snd (placeChild True 1 2 5 old_abc)) 1) = Placement"
proof -
  have u3: "alternate (fibers (snd (useFiber 3 old_abc)) 4) = Some 3"
    "index (fibers (snd (useFiber 3 old_abc)) 3) = 2"
    "flags (fibers (snd (useFiber 3 old_abc)) 4) = NoFlags"
    by (simp_all add: useFiber_def createWorkInProgress_def allocate_def upd_def old_abc_def
          li_def new_fiber_def)
  have u1: "alternate (fibers (snd (useFiber 1 old_abc)) 4) = Some 1"
    "index (fibers (snd (useFiber 1 old_abc)) 1) = 0"
    by (simp_all add: useFiber_def createWorkInProgress_def allocate_def upd_def old_abc_def
          li_def new_fiber_def)
  have a1: "alternate (fibers old_abc 1) = None"
    by (simp add: old_abc_def li_def new_fiber_def)
  show ?thesis
    using placeChild_tracking[where newFiber = 4 and lastPlacedIndex = 0 and newIndex = 0
            and st = "snd (useFiber 3 old_abc)"]
          placeChild_tracking[where newFiber = 4 and lastPlacedIndex = 2 and newIndex = 1
            and st = "snd (useFiber 1 old_abc)"]
          placeChild_tracking[where newFiber = 1 and lastPlacedIndex = 2 and newIndex = 5
            and st = old_abc]
          u3 u1 a1
    by (auto split: prod.splits)
qed

subsection \<open>Deletions and the effect list\<close>

lemma deleteChild_fields:
  "sibling (fibers (deleteChild track rf c st) a) = sibling (fibers st a)"
  "flags (fibers (deleteChild True rf c st) a) = (if a = c then Deletion else flags (fibers st a))"
  "alternate (fibers (deleteChild track rf c st) a) = alternate (fibers st a)"
  "index (fibers (deleteChild track rf c st) a) = index (fibers st a)"
  "key (fibers (deleteChild track rf c st) a) = key (fibers st a)"
  "tag (fibers (deleteChild track rf c st) a) = tag (fibers st a)"
  "elementType (fibers (deleteChild track rf c st) a) = elementType (fibers st a)"
  "fresh (deleteChild track rf c st) = fresh st"
  by (auto simp: deleteChild_def upd_def Let_def split: option.splits)

lemma deleteChild_effects:
  "nextEffect (fibers (deleteChild True rf c st) c) = None"
  "lastEffect (fibers (deleteChild True rf c st) rf) = Some c"
  "lastEffect (fibers st rf) = None \<Longrightarrow> firstEffect (fibers (deleteChild True rf c st) rf) = Some c"
  "lastEffect (fibers st rf) = Some l \<Longrightarrow>
     firstEffect (fibers (deleteChild True rf c st) rf) = firstEffect (fibers st rf)"
  "lastEffect (fibers st rf) = Some l \<Longrightarrow> l \<noteq> c \<Longrightarrow>
     nextEffect (fibers (deleteChild True rf c st) l) = Some c"
  "lastEffect (fibers st rf) = Some l \<Longrightarrow> a \<noteq> l \<Longrightarrow> a \<noteq> c \<Longrightarrow>
     nextEffect (fibers (deleteChild True rf c st) a) = nextEffect (fibers st a)"
  by (auto simp: deleteChild_def upd_def Let_def split: option.splits)

lemma linked_snoc:
  "linked nxt st p es \<Longrightarrow> es \<noteq> [] \<Longrightarrow> distinct es \<Longrightarrow> c \<notin> set es
    \<Longrightarrow> (\<And>a. a \<noteq> last es \<Longrightarrow> a \<noteq> c \<Longrightarrow> nxt (fibers st' a) = nxt (fibers st a))
    \<Longrightarrow> nxt (fibers st' (last es)) = Some c \<Longrightarrow> nxt (fibers st' c) = None
    \<Longrightarrow> linked nxt st' p (es @ [c])"
proof (induction es arbitrary: p)
  case Nil
  then show ?case by simp
next
  case (Cons a es)
  show ?case
  proof (cases "es = []")
    case True
    then show ?thesis using Cons.prems by simp
  next
    case False
    have "a \<noteq> last (a # es)" "a \<noteq> c"
      using False Cons.prems by auto
    then have n: "nxt (fibers st' a) = nxt (fibers st a)"
      using Cons.prems(5) by blast
    have "linked nxt st' (nxt (fibers st a)) (es @ [c])"
      using Cons.prems False by (intro Cons.IH) auto
    then show ?thesis
      using Cons.prems(1) n by simp
  qed
qed

lemma effect_list_deleteChild:
  assumes "effect_list st rf es" and "distinct es" and "c \<notin> set es"
  shows "effect_list (deleteChild True rf c st) rf (es @ [c])"
proof (cases "es = []")
  case True
  then have "lastEffect (fibers st rf) = None"
    using assms(1) by (simp add: effect_list_def)
  then show ?thesis
    using True by (simp add: effect_list_def deleteChild_effects)
next
  case False
  then have l: "linked nextEffect st (firstEffect (fibers st rf)) es"
    and la: "lastEffect (fibers st rf) = Some (last es)"
    using assms(1) by (simp_all add: effect_list_def)
  have ne: "last es \<noteq> c"
    using False assms(3) last_in_set by metis
  have "linked nextEffect (deleteChild True rf c st) (firstEffect (fibers st rf)) (es @ [c])"
    using l False assms(2,3)
  proof (rule linked_snoc)
    show "nextEffect (fibers (deleteChild True rf c st) a) = nextEffect (fibers st a)"
      if "a \<noteq> last es" "a \<noteq> c" for a
      using deleteChild_effects(6)[OF la that] .
    show "nextEffect (fibers (deleteChild True rf c st) (last es)) = Some c"
      using deleteChild_effects(5)[OF la ne] .
    show "nextEffect (fibers (deleteChild True rf c st) c) = None"
      by (rule deleteChild_effects(1))
  qed
  then show ?thesis
    by (simp add: effect_list_def deleteChild_effects(2) deleteChild_effects(4)[OF la])
qed

lemma linked_cong:
  "linked nxt st p as \<Longrightarrow> (\<And>a. a \<in> set as \<Longrightarrow> nxt (fibers st' a) = nxt (fibers st a))
    \<Longrightarrow> linked nxt st' p as"
  by (induction as arbitrary: p) auto

lemma deleteRemaining_loop_chain:
  "linked sibling st p cs \<Longrightarrow> effect_list st rf es \<Longrightarrow> distinct (es @ cs)
    \<Longrightarrow> \<exists>st'. deleteRemaining_loop rf p st = Some st'
          \<and> effect_list st' rf (es @ cs)
          \<and> (\<forall>a. flags (fibers st' a) = (if a \<in> set cs then Deletion else flags (fibers st a)))
          \<and> (\<forall>a. sibling (fibers st' a) = sibling (fibers st a)
                \<and> alternate (fibers st' a) = alternate (fibers st a)
                \<and> index (fibers st' a) = index (fibers st a)
                \<and> key (fibers st' a) = key (fibers st a)
                \<and> tag (fibers st' a) = tag (fibers st a)
                \<and> elementType (fibers st' a) = elementType (fibers st a))
          \<and> fresh st' = fresh st"
proof (induction cs arbitrary: st p es)
  case Nil
  then show ?case
    by (subst deleteRemaining_loop.simps) simp
next
  case (Cons c cs)
  let ?st1 = "deleteChild True rf c st"
  have p: "p = Some c" and ch: "linked sibling st (sibling (fibers st c)) cs"
    using Cons.prems(1) by simp_all
  have ch1: "linked sibling ?st1 (sibling (fibers ?st1 c)) cs"
    using ch by (simp add: deleteChild_fields(1)) (rule linked_cong, assumption, simp add: deleteChild_fields(1))
  have e1: "effect_list ?st1 rf (es @ [c])"
    using Cons.prems(2,3) by (intro effect_list_deleteChild) auto
  have d1: "distinct ((es @ [c]) @ cs)"
    using Cons.prems(3) by simp
  from Cons.IH[OF ch1 e1 d1] obtain st' where
    r: "deleteRemaining_loop rf (sibling (fibers ?st1 c)) ?st1 = Some st'"
    and e: "effect_list st' rf ((es @ [c]) @ cs)"
    and f: "\<forall>a. flags (fibers st' a) = (if a \<in> set cs then Deletion else flags (fibers ?st1 a))"
    and k: "\<forall>a. sibling (fibers st' a) = sibling (fibers ?st1 a)
                \<and> alternate (fibers st' a) = alternate (fibers ?st1 a)
                \<and> index (fibers st' a) = index (fibers ?st1 a)
                \<and> key (fibers st' a) = key (fibers ?st1 a)
                \<and> tag (fibers st' a) = tag (fibers ?st1 a)
                \<and> elementType (fibers st' a) = elementType (fibers ?st1 a)"
    and fr: "fresh st' = fresh ?st1"
    by blast
  have "deleteRemaining_loop rf p st = Some st'"
    using p r by (subst deleteRemaining_loop.simps) simp
  moreover have "effect_list st' rf (es @ c # cs)"
    using e by simp
  moreover have "\<forall>a. flags (fibers st' a) = (if a \<in> set (c # cs) then Deletion else flags (fibers st a))"
    using f by (simp add: deleteChild_fields(2))
  moreover have "\<forall>a. sibling (fibers st' a) = sibling (fibers st a)
                \<and> alternate (fibers st' a) = alternate (fibers st a)
                \<and> index (fibers st' a) = index (fibers st a)
                \<and> key (fibers st' a) = key (fibers st a)
                \<and> tag (fibers st' a) = tag (fibers st a)
                \<and> elementType (fibers st' a) = elementType (fibers st a)"
    using k by (simp add: deleteChild_fields)
  moreover have "fresh st' = fresh st"
    using fr by (simp add: deleteChild_fields)
  ultimately show ?case by blast
qed

lemma linked_old_abc:
  "linked sibling old_abc (Some 1) [1, 2, 3]"
  "linked sibling old_abc (Some 2) [2, 3]"
  "effect_list old_abc 0 []"
  by (simp_all add: old_abc_def li_def new_fiber_def effect_list_def)

text \<open>
  C8. In tracking mode \<open>deleteChild\<close> appends the child to the parent's effect list with
  a fixed number of assignments: on an empty list \<open>firstEffect\<close> and \<open>lastEffect\<close> both
  become the child; otherwise the old last effect's \<open>nextEffect\<close> is linked to the child
  and \<open>lastEffect\<close> advances. So the list \<open>es\<close> becomes \<open>es @ [c]\<close>, and deleting a run of
  siblings \<open>cs\<close> leaves \<open>es @ cs\<close>: every deleted node is flagged \<open>Deletion\<close> and stands in
  the list in the order it was met, before anything appended later.
\<close>

theorem deleteChild_appends:
  "(lastEffect (fibers st rf) = None \<longrightarrow>
      firstEffect (fibers (deleteChild True rf c st) rf) = Some c
      \<and> lastEffect (fibers (deleteChild True rf c st) rf) = Some c)
   \<and> (\<forall>l. lastEffect (fibers st rf) = Some l \<longrightarrow>
         (l \<noteq> c \<longrightarrow> nextEffect (fibers (deleteChild True rf c st) l) = Some c)
         \<and> lastEffect (fibers (deleteChild True rf c st) rf) = Some c
         \<and> firstEffect (fibers (deleteChild True rf c st) rf) = firstEffect (fibers st rf))
   \<and> flags (fibers (deleteChild True rf c st) c) = Deletion
   \<and> nextEffect (fibers (deleteChild True rf c st) c) = None
   \<and> (\<forall>es. effect_list st rf es \<and> distinct es \<and> c \<notin> set es \<longrightarrow>
         effect_list (deleteChild True rf c st) rf (es @ [c]))
   \<and> (\<forall>es p cs. effect_list st rf es \<and> linked sibling st p cs \<and> distinct (es @ cs) \<longrightarrow>
         (\<exists>st'. deleteRemainingChildren True rf p st = Some st'
            \<and> effect_list st' rf (es @ cs)
            \<and> (\<forall>a. flags (fibers st' a) = (if a \<in> set cs then Deletion else flags (fibers st a)))))"
proof (intro conjI allI impI)
  show "flags (fibers (deleteChild True rf c st) c) = Deletion"
    by (simp add: deleteChild_fields)
  show "nextEffect (fibers (deleteChild True rf c st) c) = None"
    by (rule deleteChild_effects)
next
  assume "lastEffect (fibers st rf) = None"
  then show "firstEffect (fibers (deleteChild True rf c st) rf) = Some c"
    by (rule deleteChild_effects)
  show "lastEffect (fibers (deleteChild True rf c st) rf) = Some c"
    by (rule deleteChild_effects)
next
  fix l
  assume l: "lastEffect (fibers st rf) = Some l"
  show "lastEffect (fibers (deleteChild True rf c st) rf) = Some c"
    by (rule deleteChild_effects)
  show "firstEffect (fibers (deleteChild True rf c st) rf) = firstEffect (fibers st rf)"
    using l by (rule deleteChild_effects)
  show "nextEffect (fibers (deleteChild True rf c st) l) = Some c" if "l \<noteq> c"
    using l that by (rule deleteChild_effects)
next
  fix es
  assume "effect_list st rf es \<and> distinct es \<and> c \<notin> set es"
  then show "effect_list (deleteChild True rf c st) rf (es @ [c])"
    by (simp add: effect_list_deleteChild)
next
  fix es p cs
  assume "effect_list st rf es \<and> linked sibling st p cs \<and> distinct (es @ cs)"
  then obtain st' where "deleteRemaining_loop rf p st = Some st'"
    "effect_list st' rf (es @ cs)"
    "\<forall>a. flags (fibers st' a) = (if a \<in> set cs then Deletion else flags (fibers st a))"
    using deleteRemaining_loop_chain[of st p cs rf es] by blast
  then show "\<exists>st'. deleteRemainingChildren True rf p st = Some st'
            \<and> effect_list st' rf (es @ cs)
            \<and> (\<forall>a. flags (fibers st' a) = (if a \<in> set cs then Deletion else flags (fibers st a)))"
    by (simp add: deleteRemainingChildren_def)
qed

theorem deleteChild_appends_witness:
  "firstEffect (fibers (deleteChild True 0 2 old_abc) 0) = Some 2
   \<and> lastEffect (fibers (deleteChild True 0 2 old_abc) 0) = Some 2
   \<and> effect_list (deleteChild True 0 2 old_abc) 0 [2]
   \<and> nextEffect (fibers (deleteChild True 0 3 (deleteChild True 0 2 old_abc)) 2) = Some 3
   \<and> effect_list (deleteChild True 0 3 (deleteChild True 0 2 old_abc)) 0 [2, 3]
   \<and> (\<exists>st'. deleteRemainingChildren True 0 (Some 2) old_abc = Some st'
          \<and> effect_list st' 0 [2, 3]
          \<and> flags (fibers st' 1) = NoFlags \<and> flags (fibers st' 2) = Deletion
          \<and> flags (fibers st' 3) = Deletion)"
proof -
  note A = deleteChild_appends[where st = old_abc and rf = 0 and c = 2]
  note B = deleteChild_appends[where st = "deleteChild True 0 2 old_abc" and rf = 0 and c = 3]
  have l0: "lastEffect (fibers old_abc 0) = None"
    by (simp add: old_abc_def new_fiber_def)
  have f1: "flags (fibers old_abc 1) = NoFlags"
    by (simp add: old_abc_def li_def new_fiber_def)
  have e2: "effect_list (deleteChild True 0 2 old_abc) 0 [2]"
    using A linked_old_abc(3) by fastforce
  have l2: "lastEffect (fibers (deleteChild True 0 2 old_abc) 0) = Some 2"
    using A l0 by blast
  have n3: "nextEffect (fibers (deleteChild True 0 3 (deleteChild True 0 2 old_abc)) 2) = Some 3"
    using B l2 by simp
  have e3: "effect_list (deleteChild True 0 3 (deleteChild True 0 2 old_abc)) 0 [2, 3]"
    using B e2 by fastforce
  have "\<exists>st'. deleteRemainingChildren True 0 (Some 2) old_abc = Some st'
            \<and> effect_list st' 0 ([] @ [2, 3])
            \<and> (\<forall>a. flags (fibers st' a) = (if a \<in> set [2, 3] then Deletion else flags (fibers old_abc a)))"
    using A linked_old_abc(2,3) by (elim conjE allE[where x = "[]"]) (erule allE[where x = "Some 2"], erule allE[where x = "[2, 3]"], simp)
  then have d: "\<exists>st'. deleteRemainingChildren True 0 (Some 2) old_abc = Some st'
          \<and> effect_list st' 0 [2, 3]
          \<and> flags (fibers st' 1) = NoFlags \<and> flags (fibers st' 2) = Deletion
          \<and> flags (fibers st' 3) = Deletion"
    using f1 by auto
  show ?thesis
    using A l0 e2 n3 e3 d by blast
qed

subsection \<open>Reordering keyed children\<close>

lemmas reconciler_defs =
  reconcileChildrenArray_def updateSlot_def updateFromMap_def updateElement_def
  useFiber_def createWorkInProgress_def createFiberFromElement_def allocate_def upd_def
  returning_def placeChild_def append_child_def deleteChild_def deleteRemainingChildren_def
  mapRemainingChildren_def element_key_def old_abc_def li_def el_def new_fiber_def
  blank_fiber_def Let_def NoFlags_def Placement_def Deletion_def

text \<open>
  C2, as the spec states it: reconciling the previous list [a, b, c] against the new
  order [c, a, b] flags exactly one node as moved. The count is two: the call flags both
  "a" and "b".
\<close>

theorem reorder_cab_counterexample:
  "map_option length
     (placed_keys (reconcileChildrenArray True 0 (Some 1) [el ''c'', el ''a'', el ''b''] old_abc))
     = Some 2"
  by (simp add: placed_keys_def reconciler_defs mapRemaining_loop.simps)

text \<open>
  C2, amended: reconciling, in tracking mode, the previous keyed list [a, b, c] (old
  indices 0, 1, 2, types unchanged) against the new order [c, a, b] flags exactly two
  nodes as moved: "c" (old index 2) is reused without a \<open>Placement\<close> flag, and "a" (old
  index 0) and "b" (old index 1) are reused and flagged \<open>Placement\<close>. No old child is
  flagged \<open>Deletion\<close>.
\<close>

theorem reorder_cab:
  "summary (reconcileChildrenArray True 0 (Some 1) [el ''c'', el ''a'', el ''b''] old_abc)
     = Some (Some 4,
             [(Some ''c'', Some 3, 0, NoFlags, Some 5),
              (Some ''a'', Some 1, 1, Placement, Some 6),
              (Some ''b'', Some 2, 2, Placement, None)],
             [NoFlags, NoFlags, NoFlags])
   \<and> placed_keys (reconcileChildrenArray True 0 (Some 1) [el ''c'', el ''a'', el ''b''] old_abc)
       = Some [Some ''a'', Some ''b'']"
  by (simp add: summary_def placed_keys_def reconciler_defs mapRemaining_loop.simps)

subsection \<open>A single element against the old children\<close>

lemma marks_deleteRemaining:
  assumes "linked sibling st p cs" and "effect_list st rf es" and "distinct (es @ cs)"
  shows "\<exists>st'. deleteRemainingChildren True rf p st = Some st'
          \<and> effect_list st' rf (es @ cs) \<and> marks st st' cs"
  using deleteRemaining_loop_chain[OF assms]
  unfolding marks_def deleteRemainingChildren_def by auto

lemma marks_deleteChild: "marks st (deleteChild True rf c st) [c]"
  by (simp add: marks_def deleteChild_fields)

lemma marks_trans: "marks st st1 as \<Longrightarrow> marks st1 st2 bs \<Longrightarrow> marks st st2 (as @ bs)"
  by (auto simp: marks_def)

lemma marks_linked: "marks st st' ds \<Longrightarrow> linked sibling st p cs \<Longrightarrow> linked sibling st' p cs"
  by (rule linked_cong) (auto simp: marks_def)

lemma single_scan_prefix:
  "linked sibling st p (ys @ rest) \<Longrightarrow> \<forall>y \<in> set ys. key (fibers st y) \<noteq> ekey e
    \<Longrightarrow> effect_list st rf es \<Longrightarrow> distinct (es @ ys)
    \<Longrightarrow> \<exists>st1 q. single_element_loop True rf e p st = single_element_loop True rf e q st1
          \<and> linked sibling st1 q rest \<and> effect_list st1 rf (es @ ys) \<and> marks st st1 ys"
proof (induction ys arbitrary: st p es)
  case Nil
  have "marks st st []" by (simp add: marks_def)
  then show ?case using Nil by auto
next
  case (Cons y ys)
  let ?st1 = "deleteChild True rf y st"
  have p: "p = Some y" and ch: "linked sibling st (sibling (fibers st y)) (ys @ rest)"
    and ky: "key (fibers st y) \<noteq> ekey e"
    using Cons.prems(1,2) by simp_all
  have m1: "marks st ?st1 [y]" by (rule marks_deleteChild)
  have ch1: "linked sibling ?st1 (sibling (fibers ?st1 y)) (ys @ rest)"
    using marks_linked[OF m1 ch] by (simp add: deleteChild_fields)
  have k1: "\<forall>z \<in> set ys. key (fibers ?st1 z) \<noteq> ekey e"
    using Cons.prems(2) by (simp add: deleteChild_fields)
  have e1: "effect_list ?st1 rf (es @ [y])"
    using Cons.prems(3,4) by (intro effect_list_deleteChild) auto
  have d1: "distinct ((es @ [y]) @ ys)"
    using Cons.prems(4) by simp
  from Cons.IH[OF ch1 k1 e1 d1] obtain st2 q where
    r: "single_element_loop True rf e (sibling (fibers ?st1 y)) ?st1
          = single_element_loop True rf e q st2"
    and l: "linked sibling st2 q rest" and e2: "effect_list st2 rf ((es @ [y]) @ ys)"
    and m2: "marks ?st1 st2 ys"
    by blast
  have "single_element_loop True rf e p st = single_element_loop True rf e q st2"
    using p ky r by (subst single_element_loop.simps) simp
  moreover have "marks st st2 (y # ys)"
    using marks_trans[OF m1 m2] by simp
  ultimately show ?case
    using l e2 by auto
qed

lemma effect_list_frame:
  assumes "effect_list st rf es" and "\<forall>a \<in> set (rf # es). fibers st' a = fibers st a"
  shows "effect_list st' rf es"
proof -
  have "linked nextEffect st' p es" if "linked nextEffect st p es" for p
    using that assms(2) by (intro linked_cong[of nextEffect st p es st']) auto
  then show ?thesis
    using assms by (auto simp: effect_list_def)
qed

lemma useFiber_result:
  "fst (returning rf (useFiber c st)) = fresh st"
  "fibers (snd (returning rf (useFiber c st))) a =
     (if a = fresh st
      then (fibers st c)\<lparr>alternate := Some c, flags := NoFlags, nextEffect := None,
              firstEffect := None, lastEffect := None, index := 0, sibling := None,
              return' := Some rf\<rparr>
      else fibers st a)"
  "fresh (snd (returning rf (useFiber c st))) = fresh st + 1"
  by (simp_all add: returning_def useFiber_def createWorkInProgress_def allocate_def upd_def)

lemma createFiberFromElement_result:
  "fst (returning rf (createFiberFromElement e st)) = fresh st"
  "fibers (snd (returning rf (createFiberFromElement e st))) a =
     (if a = fresh st
      then (new_fiber (tag_of_type (etype e)) (ekey e) (Some (etype e)))\<lparr>return' := Some rf\<rparr>
      else fibers st a)"
  "fresh (snd (returning rf (createFiberFromElement e st))) = fresh st + 1"
  by (simp_all add: returning_def createFiberFromElement_def allocate_def upd_def)

lemma createFiberFromFragment_result:
  "fst (returning rf (createFiberFromFragment k st)) = fresh st"
  "fibers (snd (returning rf (createFiberFromFragment k st))) a =
     (if a = fresh st
      then (new_fiber Fragment k None)\<lparr>return' := Some rf\<rparr>
      else fibers st a)"
  "fresh (snd (returning rf (createFiberFromFragment k st))) = fresh st + 1"
  by (simp_all add: returning_def createFiberFromFragment_def allocate_def upd_def)

text \<open>
  C7. Reconciling a single element in tracking mode scans the old siblings in order; the
  first old child \<open>m\<close> whose key equals the element's decides. The children \<open>ys\<close> before
  it are flagged \<open>Deletion\<close>. If \<open>m\<close> does not have the element's type, \<open>m\<close> and all its
  later siblings \<open>zs\<close> are flagged \<open>Deletion\<close> too and a fresh fiber with
  \<open>alternate === null\<close> is created; if it has, \<open>m\<close> is reused (the result is a clone whose
  \<open>alternate\<close> is \<open>m\<close>) and the later siblings \<open>zs\<close> are flagged \<open>Deletion\<close>. The deleted
  fibers are appended to the parent's effect list in the order of the scan.
\<close>

theorem reconcileSingleElement_first_key_match:
  assumes chain: "linked sibling st currentFirstChild (ys @ m # zs)"
    and before: "\<forall>y \<in> set ys. key (fibers st y) \<noteq> ekey e"
    and km: "key (fibers st m) = ekey e"
    and eff: "effect_list st rf es"
    and dist: "distinct (es @ ys @ m # zs)"
    and alloc: "\<forall>a \<in> set (rf # es @ ys @ m # zs). a < fresh st"
  shows "\<exists>st'. reconcileSingleElement True rf currentFirstChild e st = Some (fresh st, st')
     \<and> return' (fibers st' (fresh st)) = Some rf
     \<and> (same_type (fibers st m) e \<longrightarrow>
          alternate (fibers st' (fresh st)) = Some m
          \<and> key (fibers st' (fresh st)) = ekey e
          \<and> (\<forall>a. a \<noteq> fresh st \<longrightarrow>
                flags (fibers st' a)
                  = (if a \<in> set (ys @ zs) then Deletion else flags (fibers st a)))
          \<and> effect_list st' rf (es @ ys @ zs))
     \<and> (\<not> same_type (fibers st m) e \<longrightarrow>
          alternate (fibers st' (fresh st)) = None
          \<and> key (fibers st' (fresh st)) = ekey e
          \<and> (\<forall>a. a \<noteq> fresh st \<longrightarrow>
                flags (fibers st' a)
                  = (if a \<in> set (ys @ m # zs) then Deletion else flags (fibers st a)))
          \<and> effect_list st' rf (es @ ys @ m # zs))"
proof -
  have d0: "distinct (es @ ys)"
    using dist by auto
  from single_scan_prefix[OF chain before eff d0] obtain st1 q where
    scan: "single_element_loop True rf e currentFirstChild st
             = single_element_loop True rf e q st1"
    and l1: "linked sibling st1 q (m # zs)"
    and e1: "effect_list st1 rf (es @ ys)"
    and m1: "marks st st1 ys"
    by blast
  have q: "q = Some m" and lz: "linked sibling st1 (sibling (fibers st1 m)) zs"
    using l1 by simp_all
  have km1: "key (fibers st1 m) = ekey e"
    using km m1 by (simp add: marks_def)
  have tg: "tag (fibers st1 m) = tag (fibers st m)"
    and et: "elementType (fibers st1 m) = elementType (fibers st m)"
    using m1 by (simp_all add: marks_def)
  have ty1: "same_type (fibers st1 m) e = same_type (fibers st m) e"
    unfolding same_type_def tg et by (rule refl)
  have fr1: "fresh st1 = fresh st"
    using m1 by (simp add: marks_def)
  have step: "single_element_loop True rf e q st1 = key_matched True rf e m st1"
    using q km1 by (subst single_element_loop.simps) simp
  show ?thesis
  proof (cases "same_type (fibers st m) e")
    case True
    have dz: "distinct ((es @ ys) @ zs)"
      using dist by auto
    from marks_deleteRemaining[OF lz e1 dz] obtain st2 where
      del: "deleteRemainingChildren True rf (sibling (fibers st1 m)) st1 = Some st2"
      and e2: "effect_list st2 rf ((es @ ys) @ zs)"
      and m2: "marks st1 st2 zs"
      by blast
    have m12: "marks st st2 (ys @ zs)"
      by (rule marks_trans[OF m1 m2])
    have fr2: "fresh st2 = fresh st"
      using m12 by (simp add: marks_def)
    let ?st3 = "snd (returning rf (useFiber m st2))"
    have res: "reconcileSingleElement True rf currentFirstChild e st = Some (fresh st, ?st3)"
      using scan step True ty1 del useFiber_result(1)[of rf m st2] fr2
      by (simp add: reconcileSingleElement_def key_matched_def split: prod.splits)
    have new: "fibers ?st3 (fresh st) =
        (fibers st2 m)\<lparr>alternate := Some m, flags := NoFlags, nextEffect := None,
              firstEffect := None, lastEffect := None, index := 0, sibling := None,
              return' := Some rf\<rparr>"
      using useFiber_result(2)[of rf m st2 "fresh st"] fr2 by simp
    have old: "fibers ?st3 a = fibers st2 a" if "a \<noteq> fresh st" for a
      using useFiber_result(2)[of rf m st2 a] fr2 that by simp
    have e3: "effect_list ?st3 rf ((es @ ys) @ zs)"
    proof (rule effect_list_frame[OF e2], rule ballI)
      fix a
      assume "a \<in> set (rf # (es @ ys) @ zs)"
      then have "a \<in> set (rf # es @ ys @ m # zs)"
        by auto
      then have "a < fresh st"
        using alloc by blast
      then show "fibers ?st3 a = fibers st2 a"
        by (intro old) simp
    qed
    have k3: "key (fibers ?st3 (fresh st)) = ekey e"
      using new km m12 by (simp add: marks_def)
    have f3: "\<forall>a. a \<noteq> fresh st \<longrightarrow>
                flags (fibers ?st3 a)
                  = (if a \<in> set (ys @ zs) then Deletion else flags (fibers st a))"
      using old m12 by (simp add: marks_def)
    show ?thesis
      using res new k3 f3 e3 True by (intro exI[of _ ?st3]) simp
  next
    case False
    have dz: "distinct ((es @ ys) @ m # zs)"
      using dist by auto
    have lm: "linked sibling st1 (Some m) (m # zs)"
      using l1 q by simp
    from marks_deleteRemaining[OF lm e1 dz] obtain st2 where
      del: "deleteRemainingChildren True rf (Some m) st1 = Some st2"
      and e2: "effect_list st2 rf ((es @ ys) @ m # zs)"
      and m2: "marks st1 st2 (m # zs)"
      by blast
    have m12: "marks st st2 (ys @ m # zs)"
      by (rule marks_trans[OF m1 m2])
    have fr2: "fresh st2 = fresh st"
      using m12 by (simp add: marks_def)
    let ?st3 = "snd (if etype e = REACT_FRAGMENT_TYPE
                     then returning rf (createFiberFromFragment (ekey e) st2)
                     else returning rf (createFiberFromElement e st2))"
    have res: "reconcileSingleElement True rf currentFirstChild e st = Some (fresh st, ?st3)"
      using scan step False ty1 del fr2
        createFiberFromElement_result(1)[of rf e st2]
        createFiberFromFragment_result(1)[of rf "ekey e" st2]
      by (simp add: reconcileSingleElement_def key_matched_def prod_eq_iff)
    have new: "alternate (fibers ?st3 (fresh st)) = None"
      "key (fibers ?st3 (fresh st)) = ekey e"
      "return' (fibers ?st3 (fresh st)) = Some rf"
      using createFiberFromElement_result(2)[of rf e st2 "fresh st"]
        createFiberFromFragment_result(2)[of rf "ekey e" st2 "fresh st"] fr2
      by (simp_all add: new_fiber_def)
    have old: "fibers ?st3 a = fibers st2 a" if "a \<noteq> fresh st" for a
      using createFiberFromElement_result(2)[of rf e st2 a]
        createFiberFromFragment_result(2)[of rf "ekey e" st2 a] fr2 that
      by simp
    have e3: "effect_list ?st3 rf ((es @ ys) @ m # zs)"
    proof (rule effect_list_frame[OF e2], rule ballI)
      fix a
      assume "a \<in> set (rf # (es @ ys) @ m # zs)"
      then have "a \<in> set (rf # es @ ys @ m # zs)"
        by auto
      then have "a < fresh st"
        using alloc by blast
      then show "fibers ?st3 a = fibers st2 a"
        by (intro old) simp
    qed
    have f3: "\<forall>a. a \<noteq> fresh st \<longrightarrow>
                flags (fibers ?st3 a)
                  = (if a \<in> set (ys @ m # zs) then Deletion else flags (fibers st a))"
      using old m12 by (simp add: marks_def)
    show ?thesis
      using res new f3 e3 False by (intro exI[of _ ?st3]) simp
  qed
qed

theorem reconcileSingleElement_first_key_match_witness:
  "(\<exists>st'. reconcileSingleElement True 0 (Some 1) \<lparr>ekey = Some ''b'', etype = TypeOf ''li''\<rparr> old_abc
            = Some (4, st')
      \<and> alternate (fibers st' 4) = Some 2 \<and> key (fibers st' 4) = Some ''b''
      \<and> flags (fibers st' 1) = Deletion \<and> flags (fibers st' 2) = NoFlags
      \<and> flags (fibers st' 3) = Deletion \<and> effect_list st' 0 [1, 3])
   \<and> (\<exists>st'. reconcileSingleElement True 0 (Some 1) \<lparr>ekey = Some ''b'', etype = TypeOf ''div''\<rparr> old_abc
            = Some (4, st')
      \<and> alternate (fibers st' 4) = None \<and> key (fibers st' 4) = Some ''b''
      \<and> flags (fibers st' 1) = Deletion \<and> flags (fibers st' 2) = Deletion
      \<and> flags (fibers st' 3) = Deletion \<and> effect_list st' 0 [1, 2, 3])"
proof -
  have chain: "linked sibling old_abc (Some 1) ([1] @ 2 # [3])"
    using linked_old_abc(1) by simp
  have before: "\<forall>y \<in> set [1]. key (fibers old_abc y) \<noteq> ekey \<lparr>ekey = Some ''b'', etype = t\<rparr>" for t
    by (simp add: old_abc_def li_def new_fiber_def)
  have km: "key (fibers old_abc 2) = ekey \<lparr>ekey = Some ''b'', etype = t\<rparr>" for t
    by (simp add: old_abc_def li_def new_fiber_def)
  have dist: "distinct ([] @ [1] @ 2 # [3::nat])"
    by simp
  have alloc: "\<forall>a \<in> set (0 # [] @ [1] @ 2 # [3]). a < fresh old_abc"
    by (simp add: old_abc_def)
  have fr: "fresh old_abc = 4"
    by (simp add: old_abc_def)
  have fl: "flags (fibers old_abc 2) = NoFlags"
    by (simp add: old_abc_def li_def new_fiber_def)
  have same: "same_type (fibers old_abc 2) \<lparr>ekey = Some ''b'', etype = TypeOf ''li''\<rparr>"
    by (simp add: same_type_def old_abc_def li_def new_fiber_def)
  have differ: "\<not> same_type (fibers old_abc 2) \<lparr>ekey = Some ''b'', etype = TypeOf ''div''\<rparr>"
    by (simp add: same_type_def old_abc_def li_def new_fiber_def)
  note A = reconcileSingleElement_first_key_match
             [OF chain before km linked_old_abc(3) dist alloc, of "TypeOf ''li''"]
  note B = reconcileSingleElement_first_key_match
             [OF chain before km linked_old_abc(3) dist alloc, of "TypeOf ''div''"]
  from A same obtain s1 where
    r1: "reconcileSingleElement True 0 (Some 1) \<lparr>ekey = Some ''b'', etype = TypeOf ''li''\<rparr> old_abc
           = Some (fresh old_abc, s1)"
    and a1: "alternate (fibers s1 (fresh old_abc)) = Some 2"
    and k1: "key (fibers s1 (fresh old_abc)) = ekey \<lparr>ekey = Some ''b'', etype = TypeOf ''li''\<rparr>"
    and f1: "\<forall>a. a \<noteq> fresh old_abc \<longrightarrow>
               flags (fibers s1 a)
                 = (if a \<in> set ([1] @ [3]) then Deletion else flags (fibers old_abc a))"
    and e1: "effect_list s1 0 ([] @ [1] @ [3])"
    by blast
  have g1: "flags (fibers s1 1) = Deletion" "flags (fibers s1 2) = NoFlags"
      "flags (fibers s1 3) = Deletion"
    using f1 fl by (simp_all add: fr)
  have 1: "\<exists>st'. reconcileSingleElement True 0 (Some 1) \<lparr>ekey = Some ''b'', etype = TypeOf ''li''\<rparr> old_abc
            = Some (4, st')
      \<and> alternate (fibers st' 4) = Some 2 \<and> key (fibers st' 4) = Some ''b''
      \<and> flags (fibers st' 1) = Deletion \<and> flags (fibers st' 2) = NoFlags
      \<and> flags (fibers st' 3) = Deletion \<and> effect_list st' 0 [1, 3]"
    using r1 a1 k1 g1 e1 by (intro exI[of _ s1]) (simp add: fr)
  from B differ obtain s2 where
    r2: "reconcileSingleElement True 0 (Some 1) \<lparr>ekey = Some ''b'', etype = TypeOf ''div''\<rparr> old_abc
           = Some (fresh old_abc, s2)"
    and a2: "alternate (fibers s2 (fresh old_abc)) = None"
    and k2: "key (fibers s2 (fresh old_abc)) = ekey \<lparr>ekey = Some ''b'', etype = TypeOf ''div''\<rparr>"
    and f2: "\<forall>a. a \<noteq> fresh old_abc \<longrightarrow>
               flags (fibers s2 a)
                 = (if a \<in> set ([1] @ 2 # [3]) then Deletion else flags (fibers old_abc a))"
    and e2: "effect_list s2 0 ([] @ [1] @ 2 # [3])"
    by blast
  have g2: "flags (fibers s2 1) = Deletion" "flags (fibers s2 2) = Deletion"
      "flags (fibers s2 3) = Deletion"
    using f2 by (simp_all add: fr)
  have 2: "\<exists>st'. reconcileSingleElement True 0 (Some 1) \<lparr>ekey = Some ''b'', etype = TypeOf ''div''\<rparr> old_abc
            = Some (4, st')
      \<and> alternate (fibers st' 4) = None \<and> key (fibers st' 4) = Some ''b''
      \<and> flags (fibers st' 1) = Deletion \<and> flags (fibers st' 2) = Deletion
      \<and> flags (fibers st' 3) = Deletion \<and> effect_list st' 0 [1, 2, 3]"
    using r2 a2 k2 g2 e2 by (intro exI[of _ s2]) (simp add: fr)
  show ?thesis
    using 1 2 by (rule conjI)
qed

subsection \<open>The same keyed children again\<close>

lemma updateSlot_reuse:
  assumes "key (fibers st old) = ekey e" and "slot_type_match (fibers st old) e"
  shows "updateSlot rf (Some old) (ElementChild e) st
           = Inr (Some (fresh st), snd (returning rf (useFiber old st)))"
  using assms useFiber_result(1)[of rf old st]
  by (auto simp: updateSlot_def updateFragment_def updateElement_def slot_type_match_def
        Let_def prod_eq_iff split: prod.splits if_splits)

lemma step_store_facts:
  assumes "old < fresh st" and "\<forall>p. prev = Some p \<longrightarrow> p < fresh st"
  shows "fresh (step_store st rf old i prev) = fresh st + 1"
    and "fibers (step_store st rf old i prev) (fresh st) = reused (fibers st old) old i None rf"
    and "\<And>p. prev = Some p \<Longrightarrow>
           fibers (step_store st rf old i prev) p = (fibers st p)\<lparr>sibling := Some (fresh st)\<rparr>"
    and "\<And>a. a \<noteq> fresh st \<Longrightarrow> prev \<noteq> Some a \<Longrightarrow>
           fibers (step_store st rf old i prev) a = fibers st a"
  using assms
  by (auto simp: step_store_def append_child_def upd_def useFiber_result reused_def
        split: option.splits)

lemma first_pass_step:
  assumes k: "key (fibers st old) = ekey e" and t: "slot_type_match (fibers st old) e"
    and i: "index (fibers st old) = newIdx" and l: "lpi \<le> newIdx"
    and o: "old < fresh st"
  shows "first_pass True rf (Some old) (ElementChild e # cs) newIdx lpi first prev st
           = first_pass True rf (sibling (fibers st old)) cs (newIdx + 1) newIdx
               (if prev = None then Some (fresh st) else first) (Some (fresh st))
               (step_store st rf old newIdx prev)"
proof -
  let ?n = "fresh st"
  let ?st1 = "snd (returning rf (useFiber old st))"
  have a1: "alternate (fibers ?st1 ?n) = Some old"
    by (simp add: useFiber_result)
  have i1: "index (fibers (upd ?n (\<lambda>f. f\<lparr>index := newIdx\<rparr>) ?st1) old) = newIdx"
    using o i by (simp add: upd_def useFiber_result)
  have a2: "alternate (fibers (upd ?n (\<lambda>f. f\<lparr>index := newIdx\<rparr>) ?st1) ?n) = Some old"
    by (simp add: upd_def useFiber_result)
  have pc: "placeChild True ?n lpi newIdx ?st1
              = (newIdx, upd ?n (\<lambda>f. f\<lparr>index := newIdx\<rparr>) ?st1)"
    using l by (simp add: placeChild_def Let_def a2 i1)
  have ac: "append_child ?n (first, prev, s)
              = ((if prev = None then Some ?n else first), Some ?n,
                 snd (snd (append_child ?n (None, prev, s))))" for s
    by (simp add: append_child_def split: option.splits)
  show ?thesis
    using i
    by (simp add: updateSlot_reuse[OF k t] a1 pc ac step_store_def Let_def)
qed

lemma first_pass_same:
  "linked sibling st oldFiber olds \<Longrightarrow> length es = length olds
    \<Longrightarrow> \<forall>i < length olds. key (fibers st (olds ! i)) = ekey (es ! i)
          \<and> index (fibers st (olds ! i)) = newIdx + i
          \<and> slot_type_match (fibers st (olds ! i)) (es ! i)
    \<Longrightarrow> \<forall>a \<in> set olds. a < fresh st
    \<Longrightarrow> \<forall>p. prev = Some p \<longrightarrow> p < fresh st \<and> p \<notin> set olds
    \<Longrightarrow> lpi \<le> newIdx
    \<Longrightarrow> \<exists>lpi' prev' st'.
          first_pass True rf oldFiber (map ElementChild es) newIdx lpi first prev st
            = Inr (None, [], newIdx + length es, lpi',
                   (if prev = None \<and> es \<noteq> [] then Some (fresh st) else first), prev', st')
          \<and> fresh st' = fresh st + length es
          \<and> (\<forall>a < fresh st. prev \<noteq> Some a \<or> es = [] \<longrightarrow> fibers st' a = fibers st a)
          \<and> (\<forall>p. prev = Some p \<and> es \<noteq> [] \<longrightarrow>
                 fibers st' p = (fibers st p)\<lparr>sibling := Some (fresh st)\<rparr>)
          \<and> (\<forall>i < length es.
                 fibers st' (fresh st + i)
                   = reused (fibers st (olds ! i)) (olds ! i) (newIdx + i)
                       (if i + 1 < length es then Some (fresh st + i + 1) else None) rf)"
proof (induction es arbitrary: st oldFiber olds newIdx lpi first prev)
  case Nil
  then have "olds = []" by simp
  then have "oldFiber = None" using Nil.prems(1) by simp
  then show ?case by simp
next
  case (Cons e es)
  then obtain old olds' where olds: "olds = old # olds'"
    by (cases olds) auto
  let ?n = "fresh st"
  let ?st3 = "step_store st rf old newIdx prev"
  let ?first = "if prev = None then Some ?n else first"
  have of: "oldFiber = Some old" and ch: "linked sibling st (sibling (fibers st old)) olds'"
    using Cons.prems(1) olds by simp_all
  have h0: "key (fibers st old) = ekey e" "index (fibers st old) = newIdx"
      "slot_type_match (fibers st old) e"
    using Cons.prems(3) olds by auto
  have o: "old < ?n" and os: "\<forall>a \<in> set olds'. a < ?n"
    using Cons.prems(4) olds by auto
  have pv: "\<forall>p. prev = Some p \<longrightarrow> p < ?n"
    and pn: "\<forall>p. prev = Some p \<longrightarrow> p \<noteq> old \<and> p \<notin> set olds'"
    using Cons.prems(5) olds by auto
  note sf = step_store_facts[OF o pv, where rf = rf and i = newIdx]
  have step: "first_pass True rf oldFiber (map ElementChild (e # es)) newIdx lpi first prev st
           = first_pass True rf (sibling (fibers st old)) (map ElementChild es) (newIdx + 1)
               newIdx ?first (Some ?n) ?st3"
    using first_pass_step[OF h0(1) h0(3) h0(2) Cons.prems(6) o] of by simp
  have same3: "fibers ?st3 a = fibers st a" if "a \<in> set olds'" for a
  proof -
    have "a \<noteq> ?n" using os that by auto
    moreover have "prev \<noteq> Some a" using pn that by auto
    ultimately show ?thesis by (rule sf(4))
  qed
  have ch3: "linked sibling ?st3 (sibling (fibers st old)) olds'"
    using ch by (rule linked_cong) (simp add: same3)
  have len3: "length es = length olds'"
    using Cons.prems(2) olds by simp
  have h3: "\<forall>i < length olds'. key (fibers ?st3 (olds' ! i)) = ekey (es ! i)
          \<and> index (fibers ?st3 (olds' ! i)) = (newIdx + 1) + i
          \<and> slot_type_match (fibers ?st3 (olds' ! i)) (es ! i)"
  proof (intro allI impI)
    fix i assume i: "i < length olds'"
    then have "fibers ?st3 (olds' ! i) = fibers st (olds' ! i)"
      by (intro same3) simp
    moreover have "key (fibers st (olds ! Suc i)) = ekey ((e # es) ! Suc i)
          \<and> index (fibers st (olds ! Suc i)) = newIdx + Suc i
          \<and> slot_type_match (fibers st (olds ! Suc i)) ((e # es) ! Suc i)"
      using Cons.prems(3) i olds by (metis Suc_less_eq length_Cons)
    ultimately show "key (fibers ?st3 (olds' ! i)) = ekey (es ! i)
          \<and> index (fibers ?st3 (olds' ! i)) = (newIdx + 1) + i
          \<and> slot_type_match (fibers ?st3 (olds' ! i)) (es ! i)"
      using olds by simp
  qed
  have a3: "\<forall>a \<in> set olds'. a < fresh ?st3"
    using os sf(1) by auto
  have p3: "\<forall>p. Some ?n = Some p \<longrightarrow> p < fresh ?st3 \<and> p \<notin> set olds'"
    using os sf(1) by auto
  from Cons.IH[OF ch3 len3 h3 a3 p3, of newIdx ?first] obtain lpi' prev' st' where
    r: "first_pass True rf (sibling (fibers st old)) (map ElementChild es) (newIdx + 1) newIdx
          ?first (Some ?n) ?st3
        = Inr (None, [], (newIdx + 1) + length es, lpi',
               (if Some ?n = None \<and> es \<noteq> [] then Some (fresh ?st3) else ?first), prev', st')"
    and fr: "fresh st' = fresh ?st3 + length es"
    and keep: "\<forall>a < fresh ?st3. Some ?n \<noteq> Some a \<or> es = [] \<longrightarrow> fibers st' a = fibers ?st3 a"
    and link: "\<forall>p. Some ?n = Some p \<and> es \<noteq> [] \<longrightarrow>
                 fibers st' p = (fibers ?st3 p)\<lparr>sibling := Some (fresh ?st3)\<rparr>"
    and news: "\<forall>i < length es.
                 fibers st' (fresh ?st3 + i)
                   = reused (fibers ?st3 (olds' ! i)) (olds' ! i) ((newIdx + 1) + i)
                       (if i + 1 < length es then Some (fresh ?st3 + i + 1) else None) rf"
    by auto
  have 1: "first_pass True rf oldFiber (map ElementChild (e # es)) newIdx lpi first prev st
            = Inr (None, [], newIdx + length (e # es), lpi',
                   (if prev = None \<and> e # es \<noteq> [] then Some ?n else first), prev', st')"
    using step r by simp
  have 2: "fresh st' = ?n + length (e # es)"
    using fr sf(1) by simp
  have 3: "\<forall>a < ?n. prev \<noteq> Some a \<or> e # es = [] \<longrightarrow> fibers st' a = fibers st a"
  proof (intro allI impI)
    fix a assume a: "a < ?n" and "prev \<noteq> Some a \<or> e # es = []"
    then have pa: "prev \<noteq> Some a" by simp
    have "fibers st' a = fibers ?st3 a"
      using keep a sf(1) by auto
    also have "\<dots> = fibers st a"
      using a pa by (intro sf(4)) auto
    finally show "fibers st' a = fibers st a" .
  qed
  have 4: "\<forall>p. prev = Some p \<and> e # es \<noteq> [] \<longrightarrow>
                 fibers st' p = (fibers st p)\<lparr>sibling := Some ?n\<rparr>"
  proof (intro allI impI)
    fix p assume "prev = Some p \<and> e # es \<noteq> []"
    then have p: "prev = Some p" by simp
    then have "p < ?n" using pv by simp
    then have "fibers st' p = fibers ?st3 p"
      using keep sf(1) by auto
    then show "fibers st' p = (fibers st p)\<lparr>sibling := Some ?n\<rparr>"
      using sf(3)[OF p] by simp
  qed
  have n0: "fibers st' ?n
             = reused (fibers st old) old newIdx (if es \<noteq> [] then Some (?n + 1) else None) rf"
  proof (cases "es = []")
    case True
    then have "fibers st' ?n = fibers ?st3 ?n"
      using keep sf(1) by auto
    then show ?thesis
      using True sf(2) by simp
  next
    case False
    then have "fibers st' ?n = (fibers ?st3 ?n)\<lparr>sibling := Some (fresh ?st3)\<rparr>"
      using link by simp
    then show ?thesis
      using False sf(1,2) by (simp add: reused_def)
  qed
  have 5: "\<forall>i < length (e # es).
                 fibers st' (?n + i)
                   = reused (fibers st (olds ! i)) (olds ! i) (newIdx + i)
                       (if i + 1 < length (e # es) then Some (?n + i + 1) else None) rf"
  proof (intro allI impI)
    fix i assume i: "i < length (e # es)"
    show "fibers st' (?n + i)
            = reused (fibers st (olds ! i)) (olds ! i) (newIdx + i)
                (if i + 1 < length (e # es) then Some (?n + i + 1) else None) rf"
    proof (cases i)
      case 0
      then show ?thesis using n0 olds by simp
    next
      case (Suc j)
      then have j: "j < length es" using i by simp
      then have "olds' ! j \<in> set olds'" using len3 by simp
      then have "fibers ?st3 (olds' ! j) = fibers st (olds' ! j)"
        by (rule same3)
      then show ?thesis
        using news j Suc olds sf(1) by simp
    qed
  qed
  show ?case
    using 1 2 3 4 5 by blast
qed

lemma linked_upt:
  "(\<forall>i < k. sibling (fibers st (n + i)) = (if i + 1 < k then Some (n + i + 1) else None))
    \<Longrightarrow> linked sibling st (if k = 0 then None else Some n) [n ..< n + k]"
proof (induction k arbitrary: n)
  case 0
  then show ?case by simp
next
  case (Suc k)
  have s0: "sibling (fibers st n) = (if k = 0 then None else Some (Suc n))"
    using Suc.prems[rule_format, of 0] by simp
  have "\<forall>i < k. sibling (fibers st (Suc n + i))
          = (if i + 1 < k then Some (Suc n + i + 1) else None)"
  proof (intro allI impI)
    fix i assume "i < k"
    then show "sibling (fibers st (Suc n + i))
          = (if i + 1 < k then Some (Suc n + i + 1) else None)"
      using Suc.prems[rule_format, of "Suc i"] by simp
  qed
  then have ih: "linked sibling st (if k = 0 then None else Some (Suc n)) [Suc n ..< Suc n + k]"
    by (rule Suc.IH)
  have u: "[n ..< n + Suc k] = n # [Suc n ..< Suc n + k]"
    by (simp add: upt_conv_Cons del: upt_Suc)
  show ?case
    unfolding u using s0 ih by (simp del: upt_Suc)
qed

text \<open>
  C9. Reconciling, in tracking mode, an array of elements against an old sibling list
  with the same keys in the same order and the same types (the old fibers at the indices
  0, 1, ...) returns, flags no produced node \<open>Placement\<close>, reuses every old node (the
  \<open>i\<close>-th produced node is a clone whose \<open>alternate\<close> is the \<open>i\<close>-th old node), records no
  deletion (no old fiber and not the parent is changed at all), and produces the
  siblings in the order of the array.
\<close>

theorem reconcileChildrenArray_same_children:
  assumes chain: "linked sibling st currentFirstChild olds"
    and len: "length es = length olds"
    and same: "\<forall>i < length olds. key (fibers st (olds ! i)) = ekey (es ! i)
                 \<and> index (fibers st (olds ! i)) = i
                 \<and> slot_type_match (fibers st (olds ! i)) (es ! i)"
    and alloc: "\<forall>a \<in> set (rf # olds). a < fresh st"
  shows "\<exists>st'. reconcileChildrenArray True rf currentFirstChild (map ElementChild es) st
                 = Some (Inr ((if es = [] then None else Some (fresh st)), st'))
     \<and> linked sibling st' (if es = [] then None else Some (fresh st))
          [fresh st ..< fresh st + length es]
     \<and> (\<forall>i < length es.
           alternate (fibers st' (fresh st + i)) = Some (olds ! i)
           \<and> flags (fibers st' (fresh st + i)) = NoFlags
           \<and> key (fibers st' (fresh st + i)) = ekey (es ! i)
           \<and> index (fibers st' (fresh st + i)) = i
           \<and> return' (fibers st' (fresh st + i)) = Some rf)
     \<and> (\<forall>a < fresh st. fibers st' a = fibers st a)
     \<and> fresh st' = fresh st + length es
     \<and> NoFlags \<noteq> Placement \<and> NoFlags \<noteq> Deletion"
proof -
  have same0: "\<forall>i < length olds. key (fibers st (olds ! i)) = ekey (es ! i)
                 \<and> index (fibers st (olds ! i)) = 0 + i
                 \<and> slot_type_match (fibers st (olds ! i)) (es ! i)"
    using same by simp
  have a: "\<forall>a \<in> set olds. a < fresh st"
    using alloc by simp
  have p: "\<forall>p. (None :: nat option) = Some p \<longrightarrow> p < fresh st \<and> p \<notin> set olds"
    by simp
  from first_pass_same[OF chain len same0 a p, of 0 rf None] obtain lpi' prev' st' where
    r: "first_pass True rf currentFirstChild (map ElementChild es) 0 0 None None st
          = Inr (None, [], 0 + length es, lpi',
                 (if (None :: nat option) = None \<and> es \<noteq> [] then Some (fresh st) else None),
                 prev', st')"
    and fr: "fresh st' = fresh st + length es"
    and keep: "\<forall>a < fresh st. (None :: nat option) \<noteq> Some a \<or> es = [] \<longrightarrow>
                 fibers st' a = fibers st a"
    and news: "\<forall>i < length es.
                 fibers st' (fresh st + i)
                   = reused (fibers st (olds ! i)) (olds ! i) (0 + i)
                       (if i + 1 < length es then Some (fresh st + i + 1) else None) rf"
    by blast
  have res: "reconcileChildrenArray True rf currentFirstChild (map ElementChild es) st
               = Some (Inr ((if es = [] then None else Some (fresh st)), st'))"
    using r
    by (subst reconcileChildrenArray_def)
       (simp add: deleteRemainingChildren_def deleteRemaining_loop.simps)
  have sib: "\<forall>i < length es. sibling (fibers st' (fresh st + i))
               = (if i + 1 < length es then Some (fresh st + i + 1) else None)"
    using news by (simp add: reused_def)
  have ln: "linked sibling st' (if es = [] then None else Some (fresh st))
              [fresh st ..< fresh st + length es]"
    using linked_upt[OF sib] by simp
  have fields: "\<forall>i < length es.
           alternate (fibers st' (fresh st + i)) = Some (olds ! i)
           \<and> flags (fibers st' (fresh st + i)) = NoFlags
           \<and> key (fibers st' (fresh st + i)) = ekey (es ! i)
           \<and> index (fibers st' (fresh st + i)) = i
           \<and> return' (fibers st' (fresh st + i)) = Some rf"
    using news same len by (simp add: reused_def)
  have old: "\<forall>a < fresh st. fibers st' a = fibers st a"
    using keep by simp
  have c: "NoFlags \<noteq> Placement \<and> NoFlags \<noteq> Deletion"
    by (simp add: NoFlags_def Placement_def Deletion_def)
  show ?thesis
    using res ln fields old fr c by blast
qed

theorem reconcileChildrenArray_same_children_witness:
  "(\<exists>st'. reconcileChildrenArray True 0 (Some 1) [el ''a'', el ''b'', el ''c''] old_abc
            = Some (Inr (Some 4, st'))
      \<and> linked sibling st' (Some 4) [4, 5, 6]
      \<and> alternate (fibers st' 4) = Some 1 \<and> flags (fibers st' 4) = NoFlags
      \<and> alternate (fibers st' 5) = Some 2 \<and> flags (fibers st' 5) = NoFlags
      \<and> alternate (fibers st' 6) = Some 3 \<and> flags (fibers st' 6) = NoFlags
      \<and> fibers st' 0 = fibers old_abc 0 \<and> fibers st' 1 = fibers old_abc 1
      \<and> fibers st' 2 = fibers old_abc 2 \<and> fibers st' 3 = fibers old_abc 3)
   \<and> summary (reconcileChildrenArray True 0 (Some 1) [el ''a'', el ''b'', el ''c''] old_abc)
       = Some (Some 4,
               [(Some ''a'', Some 1, 0, NoFlags, Some 5),
                (Some ''b'', Some 2, 1, NoFlags, Some 6),
                (Some ''c'', Some 3, 2, NoFlags, None)],
               [NoFlags, NoFlags, NoFlags])"
proof -
  let ?es = "[\<lparr>ekey = Some ''a'', etype = TypeOf ''li''\<rparr>,
              \<lparr>ekey = Some ''b'', etype = TypeOf ''li''\<rparr>,
              \<lparr>ekey = Some ''c'', etype = TypeOf ''li''\<rparr>]"
  have len: "length ?es = length [1, 2, 3 :: nat]"
    by simp
  have same: "\<forall>i < length [1, 2, 3 :: nat].
        key (fibers old_abc ([1, 2, 3] ! i)) = ekey (?es ! i)
        \<and> index (fibers old_abc ([1, 2, 3] ! i)) = i
        \<and> slot_type_match (fibers old_abc ([1, 2, 3] ! i)) (?es ! i)"
    by (simp add: less_Suc_eq numeral_3_eq_3 old_abc_def li_def new_fiber_def
          slot_type_match_def all_conj_distrib)
  have alloc: "\<forall>a \<in> set (0 # [1, 2, 3]). a < fresh old_abc"
    by (simp add: old_abc_def)
  have fr: "fresh old_abc = 4"
    by (simp add: old_abc_def)
  have els: "map ElementChild ?es = [el ''a'', el ''b'', el ''c'']"
    by (simp add: el_def)
  from reconcileChildrenArray_same_children[OF linked_old_abc(1) len same alloc]
  obtain s1 where
    r: "reconcileChildrenArray True 0 (Some 1) (map ElementChild ?es) old_abc
          = Some (Inr ((if ?es = [] then None else Some (fresh old_abc)), s1))"
    and l: "linked sibling s1 (if ?es = [] then None else Some (fresh old_abc))
              [fresh old_abc ..< fresh old_abc + length ?es]"
    and f: "\<forall>i < length ?es.
           alternate (fibers s1 (fresh old_abc + i)) = Some ([1, 2, 3] ! i)
           \<and> flags (fibers s1 (fresh old_abc + i)) = NoFlags
           \<and> key (fibers s1 (fresh old_abc + i)) = ekey (?es ! i)
           \<and> index (fibers s1 (fresh old_abc + i)) = i
           \<and> return' (fibers s1 (fresh old_abc + i)) = Some 0"
    and o: "\<forall>a < fresh old_abc. fibers s1 a = fibers old_abc a"
    by blast
  have f0: "alternate (fibers s1 4) = Some 1 \<and> flags (fibers s1 4) = NoFlags"
    using f[rule_format, of 0] by (simp add: fr)
  have f1: "alternate (fibers s1 5) = Some 2 \<and> flags (fibers s1 5) = NoFlags"
    using f[rule_format, of 1] by (simp add: fr)
  have f2: "alternate (fibers s1 6) = Some 3 \<and> flags (fibers s1 6) = NoFlags"
    using f[rule_format, of 2] by (simp add: fr)
  have l': "linked sibling s1 (Some 4) [4, 5, 6]"
  proof -
    have "[4 ..< 4 + length ?es] = [4, 5, 6 :: nat]"
      by (simp add: upt_rec)
    then show ?thesis
      using l by (simp add: fr)
  qed
  have o': "fibers s1 0 = fibers old_abc 0 \<and> fibers s1 1 = fibers old_abc 1
      \<and> fibers s1 2 = fibers old_abc 2 \<and> fibers s1 3 = fibers old_abc 3"
    using o by (simp add: fr)
  have 1: "\<exists>st'. reconcileChildrenArray True 0 (Some 1) [el ''a'', el ''b'', el ''c''] old_abc
            = Some (Inr (Some 4, st'))
      \<and> linked sibling st' (Some 4) [4, 5, 6]
      \<and> alternate (fibers st' 4) = Some 1 \<and> flags (fibers st' 4) = NoFlags
      \<and> alternate (fibers st' 5) = Some 2 \<and> flags (fibers st' 5) = NoFlags
      \<and> alternate (fibers st' 6) = Some 3 \<and> flags (fibers st' 6) = NoFlags
      \<and> fibers st' 0 = fibers old_abc 0 \<and> fibers st' 1 = fibers old_abc 1
      \<and> fibers st' 2 = fibers old_abc 2 \<and> fibers st' 3 = fibers old_abc 3"
    using r l' f0 f1 f2 o' unfolding els by (intro exI[of _ s1]) (simp add: fr)
  have 2: "summary (reconcileChildrenArray True 0 (Some 1) [el ''a'', el ''b'', el ''c''] old_abc)
       = Some (Some 4,
               [(Some ''a'', Some 1, 0, NoFlags, Some 5),
                (Some ''b'', Some 2, 1, NoFlags, Some 6),
                (Some ''c'', Some 3, 2, NoFlags, None)],
               [NoFlags, NoFlags, NoFlags])"
    by (simp add: summary_def reconciler_defs deleteRemaining_loop.simps)
  show ?thesis
    using 1 2 by (rule conjI)
qed

end
